theory Spec2Isabelle
  imports Main "HOL-Library.AList"
begin

section \<open>Python values used by the module\<close>

text \<open>
  The module \<^verbatim>\<open>stringDistance.py\<close> holds the function \<^verbatim>\<open>edit_distance\<close> and the class
  \<^verbatim>\<open>BKtree\<close>. Every function of the model that can fail returns a value of type
  \<open>(error + 'r) option\<close>: \<open>None\<close> is a call that never returns (unbounded recursion
  through a cyclic node dictionary; the interpreter's recursion limit is not modelled),
  \<open>Some (Inl e)\<close> is a raised exception, \<open>Some (Inr r)\<close> is a normal return.
\<close>

datatype error = KeyError | TypeError

text \<open>
  Items are Python strings, as in the module's own use of the class (the placeholder root
  of an empty tree is the string \<^verbatim>\<open>""\<close>). An arc is the tuple \<^verbatim>\<open>(word, distance)\<close>.
\<close>

type_synonym item = string

type_synonym arc = "item \<times> int"

text \<open>
  \<^verbatim>\<open>self.nodes\<close> is a dict from item to the list of its arcs. It is kept as an
  association list in insertion order; \<open>map_of\<close> reads a key and \<open>AList.update\<close> stores
  one (in place when the key is there, at the end otherwise).
\<close>

type_synonym node_dict = "(item \<times> arc list) list"

record BKtree =
  distance :: "item \<Rightarrow> item \<Rightarrow> int"
  nodes :: node_dict
  root :: item

section \<open>The distance metric\<close>

text \<open>
  \<^verbatim>\<open>edit_distance(a, b)\<close>. The table \<^verbatim>\<open>d\<close> is a \<^verbatim>\<open>defaultdict(int)\<close> keyed by pairs of
  indices: a key that was never stored reads as 0 (\<open>dget\<close>); that is how the source gets
  \<^verbatim>\<open>d[0, 0]\<close>. The three \<^verbatim>\<open>for\<close> loops over \<^verbatim>\<open>range(1, len + 1)\<close> are folds over
  \<open>[1..<len + 1]\<close>, the third with the loop over \<^verbatim>\<open>i\<close> nested in the loop over \<^verbatim>\<open>j\<close>.
  Python's integers are unbounded, so the entries are of type \<open>int\<close>. Every index
  \<^verbatim>\<open>a[i-1]\<close>, \<^verbatim>\<open>b[j-1]\<close> is in range.
\<close>

type_synonym table = "nat \<times> nat \<Rightarrow> int option"

definition dget :: "table \<Rightarrow> nat \<times> nat \<Rightarrow> int" where
  "dget d k = (case d k of None \<Rightarrow> 0 | Some v \<Rightarrow> v)"

function edit_distance :: "'e list \<Rightarrow> 'e list \<Rightarrow> int" where
  "edit_distance a b =
    (if length a < length b then edit_distance b a
     else
       let d = Map.empty;
           d = fold (\<lambda>i d. d((i, 0) \<mapsto> int i)) [1..<length a + 1] d;
           d = fold (\<lambda>j d. d((0, j) \<mapsto> int j)) [1..<length b + 1] d;
           d = fold (\<lambda>j d.
                 fold (\<lambda>i d.
                   if a ! (i - 1) = b ! (j - 1)
                   then d((i, j) \<mapsto> dget d (i - 1, j - 1))
                   else d((i, j) \<mapsto> min (dget d (i - 1, j) + 1)
                                       (min (dget d (i, j - 1) + 1) (dget d (i - 1, j - 1) + 1))))
                 [1..<length a + 1] d)
               [1..<length b + 1] d
       in dget d (length a, length b))"
  by pat_completeness auto
termination
  by (relation "measure (\<lambda>(a, b). if length a < length b then 1 else 0)") auto

declare edit_distance.simps [simp del]

section \<open>Construction\<close>

text \<open>
  \<^verbatim>\<open>_addLeaf(self, root, item)\<close>. The \<^verbatim>\<open>for ... break ... else\<close> loop looks for the first
  arc whose label equals \<^verbatim>\<open>dist\<close>: when there is one the call recurses into its child and
  leaves the loop, otherwise the \<^verbatim>\<open>else\<close> branch registers the item and appends the arc.
  The method returns nothing; the model returns the updated object.
\<close>

partial_function (option) addLeaf ::
  "BKtree \<Rightarrow> item \<Rightarrow> item \<Rightarrow> (error + BKtree) option" where
  "addLeaf self root' item =
    (let dist = distance self root' item in
     if dist > 0 then
       (case map_of (nodes self) root' of
          None \<Rightarrow> Some (Inl KeyError)
        | Some arcs \<Rightarrow>
            (case List.find (\<lambda>arc. dist = snd arc) arcs of
               Some arc \<Rightarrow> addLeaf self (fst arc) item
             | None \<Rightarrow>
                 (let self1 = (if map_of (nodes self) item = None
                               then self\<lparr>nodes := AList.update item [] (nodes self)\<rparr>
                               else self)
                  in case map_of (nodes self1) root' of
                       None \<Rightarrow> Some (Inl KeyError)
                     | Some arcs1 \<Rightarrow>
                         Some (Inr (self1\<lparr>nodes :=
                           AList.update root' (arcs1 @ [(item, dist)]) (nodes self1)\<rparr>)))))
     else Some (Inr self))"

declare addLeaf.simps [code]

text \<open>
  The loop \<^verbatim>\<open>for el in items\<close> of \<^verbatim>\<open>__init__\<close>, over the items left in the stream after
  the first one.
\<close>

fun init_loop :: "item list \<Rightarrow> BKtree \<Rightarrow> (error + BKtree) option" where
  "init_loop [] self = Some (Inr self)"
| "init_loop (el # els) self =
    (if map_of (nodes self) el = None then
       (case addLeaf self (root self) el of
          None \<Rightarrow> None
        | Some (Inl e) \<Rightarrow> Some (Inl e)
        | Some (Inr self') \<Rightarrow> init_loop els self')
     else init_loop els self)"

text \<open>
  \<^verbatim>\<open>BKtree(items, distance)\<close>: the stream is the list of the items it yields. Switching
  the garbage collector off and on has no effect on the object and is left out.
\<close>

definition BKtree_init :: "item list \<Rightarrow> (item \<Rightarrow> item \<Rightarrow> int) \<Rightarrow> (error + BKtree) option" where
  "BKtree_init items dist_fn =
    (case items of
       [] \<Rightarrow> Some (Inr \<lparr>distance = dist_fn, nodes = [], root = []\<rparr>)
     | r # els \<Rightarrow> init_loop els \<lparr>distance = dist_fn, nodes = [(r, [])], root = r\<rparr>)"

section \<open>Queries\<close>

text \<open>
  A \<^verbatim>\<open>for\<close> loop whose body may raise or may not return: the state is threaded through
  the elements in order, and the first failure ends the loop.
\<close>

fun for_loop :: "('b \<Rightarrow> 's \<Rightarrow> (error + 's) option) \<Rightarrow> 'b list \<Rightarrow> 's \<Rightarrow> (error + 's) option" where
  "for_loop body [] s = Some (Inr s)"
| "for_loop body (x # xs) s =
    (case body x s of
       None \<Rightarrow> None
     | Some (Inl e) \<Rightarrow> Some (Inl e)
     | Some (Inr s') \<Rightarrow> for_loop body xs s')"

lemma for_loop_mono [partial_function_mono]:
  assumes "\<And>x s. mono_option (\<lambda>f. body f x s)"
  shows "mono_option (\<lambda>f. for_loop (body f) xs s)"
proof (induction xs arbitrary: s)
  case Nil
  show ?case by (simp add: option.const_mono)
next
  case (Cons x xs)
  have eq: "\<And>f. for_loop (body f) (x # xs) s =
     Option.bind (body f x s)
       (\<lambda>r. case r of Inl e \<Rightarrow> Some (Inl e) | Inr s' \<Rightarrow> for_loop (body f) xs s')"
    by (simp split: option.splits sum.splits)
  have inner: "mono_option (\<lambda>f. case r of Inl e \<Rightarrow> Some (Inl e)
                                 | Inr s' \<Rightarrow> for_loop (body f) xs s')" for r
    by (cases r) (simp_all add: option.const_mono Cons.IH)
  show ?case
    unfolding eq
    by (intro partial_function_mono assms inner)
qed

text \<open>
  \<^verbatim>\<open>_finder(self, root, item, threshold, result)\<close> appends to the caller's list
  \<^verbatim>\<open>result\<close>; the model returns the list and the object as they are after the call.
\<close>

partial_function (option) finder ::
  "BKtree \<Rightarrow> item \<Rightarrow> item \<Rightarrow> int \<Rightarrow> item list \<Rightarrow> (error + item list \<times> BKtree) option" where
  "finder self root' item threshold result =
    (let dist = distance self root' item;
         result1 = (if dist \<le> threshold then result @ [root'] else result);
         dmin = dist - threshold;
         dmax = dist + threshold
     in case map_of (nodes self) root' of
          None \<Rightarrow> Some (Inl KeyError)
        | Some arcs \<Rightarrow>
            for_loop (\<lambda>arc (result', self').
                 if dmin \<le> snd arc \<and> snd arc \<le> dmax
                 then finder self' (fst arc) item threshold result'
                 else Some (Inr (result', self')))
              arcs (result1, self))"

declare finder.simps [code]

text \<open>\<^verbatim>\<open>find(self, item, threshold)\<close>; \<^verbatim>\<open>if self.nodes\<close> tests that the dict is not empty.\<close>

definition find_bk :: "BKtree \<Rightarrow> item \<Rightarrow> int \<Rightarrow> (error + item list \<times> BKtree) option" where
  "find_bk self item threshold =
    (if nodes self \<noteq> [] then finder self (root self) item threshold []
     else Some (Inr ([], self)))"

subsection \<open>The lazy query\<close>

text \<open>
  \<^verbatim>\<open>_xfinder\<close> is a generator function: a call creates a generator object and runs no
  code. The object is the stack of the suspended activations of \<^verbatim>\<open>_xfinder\<close>, innermost
  first, with the query's item and threshold. An activation is
  \<^item> \<open>Start r\<close>: created for node \<open>r\<close>, not started;
  \<^item> \<open>AtYield r dist\<close>: suspended at \<^verbatim>\<open>yield root\<close>;
  \<^item> \<open>Loop dist arcs\<close>: inside \<^verbatim>\<open>for arc in self.nodes[root]\<close> with \<open>arcs\<close> still to
    visit; below the top of the stack it is suspended at \<^verbatim>\<open>yield node\<close>, waiting for the
    generator of the child above it.
\<close>

datatype frame = Start item | AtYield item int | Loop int "arc list"

record generator =
  frames :: "frame list"
  g_item :: item
  g_threshold :: int

text \<open>
  \<^verbatim>\<open>next(g)\<close>: runs the generator to its next \<^verbatim>\<open>yield\<close> (\<open>Some\<close> of the item) or to its
  end (\<open>None\<close>, Python's \<^verbatim>\<open>StopIteration\<close>), and returns the generator and the tree as
  they are then.
\<close>

partial_function (option) gen_next ::
  "BKtree \<Rightarrow> generator \<Rightarrow> (error + item option \<times> generator \<times> BKtree) option" where
  "gen_next self g =
    (case frames g of
       [] \<Rightarrow> Some (Inr (None, g, self))
     | Start r # fs \<Rightarrow>
         (let dist = distance self r (g_item g) in
          if dist \<le> g_threshold g
          then Some (Inr (Some r, g\<lparr>frames := AtYield r dist # fs\<rparr>, self))
          else gen_next self (g\<lparr>frames := AtYield r dist # fs\<rparr>))
     | AtYield r dist # fs \<Rightarrow>
         (case map_of (nodes self) r of
            None \<Rightarrow> Some (Inl KeyError)
          | Some arcs \<Rightarrow> gen_next self (g\<lparr>frames := Loop dist arcs # fs\<rparr>))
     | Loop dist [] # fs \<Rightarrow> gen_next self (g\<lparr>frames := fs\<rparr>)
     | Loop dist (arc # arcs) # fs \<Rightarrow>
         (if dist - g_threshold g \<le> snd arc \<and> snd arc \<le> dist + g_threshold g
          then gen_next self (g\<lparr>frames := Start (fst arc) # Loop dist arcs # fs\<rparr>)
          else gen_next self (g\<lparr>frames := Loop dist arcs # fs\<rparr>)))"

declare gen_next.simps [code]

text \<open>
  \<^verbatim>\<open>_xfinder(self, root, item, threshold)\<close> and \<^verbatim>\<open>xfind(self, item, threshold)\<close>. When the
  dict is empty \<^verbatim>\<open>xfind\<close> reaches the end of its body and returns Python's \<^verbatim>\<open>None\<close>,
  which is \<open>None\<close> here.
\<close>

definition xfinder :: "BKtree \<Rightarrow> item \<Rightarrow> item \<Rightarrow> int \<Rightarrow> generator" where
  "xfinder self root' item threshold =
    \<lparr>frames = [Start root'], g_item = item, g_threshold = threshold\<rparr>"

definition xfind :: "BKtree \<Rightarrow> item \<Rightarrow> int \<Rightarrow> generator option \<times> BKtree" where
  "xfind self item threshold =
    (if nodes self \<noteq> [] then (Some (xfinder self (root self) item threshold), self)
     else (None, self))"

text \<open>
  The caller's side. \<open>pull n\<close> asks a generator for up to \<open>n\<close> items and stops there (a
  partial drain); \<open>drain\<close> is \<^verbatim>\<open>for node in g: acc.append(node)\<close>, a full drain;
  \<open>drain_xfind\<close> is \<^verbatim>\<open>list(tree.xfind(item, threshold))\<close>, where iterating Python's
  \<^verbatim>\<open>None\<close> raises \<^verbatim>\<open>TypeError\<close>.
\<close>

fun pull :: "nat \<Rightarrow> BKtree \<Rightarrow> generator \<Rightarrow> (error + item list \<times> generator \<times> BKtree) option" where
  "pull 0 self g = Some (Inr ([], g, self))"
| "pull (Suc n) self g =
    (case gen_next self g of
       None \<Rightarrow> None
     | Some (Inl e) \<Rightarrow> Some (Inl e)
     | Some (Inr (None, g', self')) \<Rightarrow> Some (Inr ([], g', self'))
     | Some (Inr (Some v, g', self')) \<Rightarrow>
         (case pull n self' g' of
            None \<Rightarrow> None
          | Some (Inl e) \<Rightarrow> Some (Inl e)
          | Some (Inr (vs, g'', self'')) \<Rightarrow> Some (Inr (v # vs, g'', self''))))"

partial_function (option) drain ::
  "BKtree \<Rightarrow> generator \<Rightarrow> item list \<Rightarrow> (error + item list \<times> BKtree) option" where
  "drain self g acc =
    (case gen_next self g of
       None \<Rightarrow> None
     | Some (Inl e) \<Rightarrow> Some (Inl e)
     | Some (Inr (None, g', self')) \<Rightarrow> Some (Inr (acc, self'))
     | Some (Inr (Some v, g', self')) \<Rightarrow> drain self' g' (acc @ [v]))"

declare drain.simps [code]

definition drain_xfind :: "BKtree \<Rightarrow> item \<Rightarrow> int \<Rightarrow> (error + item list \<times> BKtree) option" where
  "drain_xfind self item threshold =
    (case xfind self item threshold of
       (None, self') \<Rightarrow> Some (Inl TypeError)
     | (Some g, self') \<Rightarrow> drain self' g [])"

section \<open>What the edit distance is specified to be\<close>

text \<open>
  The specification's words: the minimum number of single-element insertions, deletions
  and substitutions that transform \<open>a\<close> into \<open>b\<close>. \<open>edit_step a b\<close> is one such
  operation at any position; \<open>(edit_step ^^ n) a b\<close> is a sequence of \<open>n\<close> of them.
\<close>

inductive edit_step :: "'e list \<Rightarrow> 'e list \<Rightarrow> bool" where
  ins: "edit_step (u @ v) (u @ x # v)"
| del: "edit_step (u @ x # v) (u @ v)"
| sub: "edit_step (u @ x # v) (u @ y # v)"

text \<open>
  The recurrence of the table, on lists, and the entry the table is meant to hold at
  \<open>(i, j)\<close>: the recurrence on the first \<open>i\<close> elements of \<open>a\<close> and the first \<open>j\<close> of \<open>b\<close>,
  read from their last elements backwards.
\<close>

fun lev :: "'e list \<Rightarrow> 'e list \<Rightarrow> nat" where
  "lev [] ys = length ys"
| "lev (x # xs) [] = Suc (length xs)"
| "lev (x # xs) (y # ys) =
     (if x = y then lev xs ys
      else Suc (min (lev xs (y # ys)) (min (lev (x # xs) ys) (lev xs ys))))"

definition lev_prefix_tab :: "'e list \<Rightarrow> 'e list \<Rightarrow> nat \<Rightarrow> nat \<Rightarrow> int" where
  "lev_prefix_tab a b i j = int (lev (rev (take i a)) (rev (take j b)))"

section \<open>The tree a node dictionary stands for\<close>

text \<open>
  The proofs read the dictionary as a tree: a node carries the label of the arc that leads
  to it (0 at the root), its item, and its children in the order of the arc list.
  \<open>repr m t\<close> says that the dictionary \<open>m\<close> holds, for every node of \<open>t\<close>, exactly the
  arcs to its children. \<open>ains\<close> is the insertion of \<^verbatim>\<open>_addLeaf\<close> on that tree, \<open>abuild\<close>
  the loop of \<^verbatim>\<open>__init__\<close>, \<open>afind\<close> the traversal of \<^verbatim>\<open>_finder\<close>; the lemmas below show
  that the functions of the model compute them.
\<close>

datatype bk = Node (lab: int) (val: item) (kids: "bk list")

fun iset :: "bk \<Rightarrow> item set" where
  "iset (Node l x cs) = insert x (\<Union>c\<in>set cs. iset c)"

definition arc_of :: "bk \<Rightarrow> arc" where
  "arc_of c = (val c, lab c)"

fun repr :: "(item \<rightharpoonup> arc list) \<Rightarrow> bk \<Rightarrow> bool" where
  "repr m (Node l x cs) = (m x = Some (map arc_of cs) \<and> (\<forall>c\<in>set cs. repr m c))"

text \<open>
  The shape construction keeps: the labels at a node are positive and pairwise different,
  and no item stands at two nodes.
\<close>

fun shape :: "bk \<Rightarrow> bool" where
  "shape (Node l x cs) =
    (distinct (map lab cs) \<and>
     (\<forall>c\<in>set cs. 0 < lab c \<and> x \<notin> iset c \<and> shape c) \<and>
     (\<forall>c\<in>set cs. \<forall>c'\<in>set cs. lab c \<noteq> lab c' \<longrightarrow> iset c \<inter> iset c' = {}))"

fun ains :: "(item \<Rightarrow> item \<Rightarrow> int) \<Rightarrow> item \<Rightarrow> bk \<Rightarrow> bk" where
  "ains d x (Node l r cs) =
    (if 0 < d r x then
       (if d r x \<in> lab ` set cs
        then Node l r (map (\<lambda>c. if lab c = d r x then ains d x c else c) cs)
        else Node l r (cs @ [Node (d r x) x []]))
     else Node l r cs)"

fun abuild :: "(item \<Rightarrow> item \<Rightarrow> int) \<Rightarrow> item list \<Rightarrow> bk \<Rightarrow> bk" where
  "abuild d [] t = t"
| "abuild d (el # els) t = abuild d els (if el \<in> iset t then t else ains d el t)"

definition tree_of :: "BKtree \<Rightarrow> bk \<Rightarrow> bool" where
  "tree_of self t \<longleftrightarrow>
     repr (map_of (nodes self)) t \<and> shape t \<and> val t = root self \<and>
     fst ` set (nodes self) = iset t \<and> distinct (map fst (nodes self))"

fun afind :: "(item \<Rightarrow> item \<Rightarrow> int) \<Rightarrow> item \<Rightarrow> int \<Rightarrow> bk \<Rightarrow> item list" where
  "afind d q th (Node l r cs) =
     (if d r q \<le> th then [r] else []) @
     concat (map (afind d q th) (filter (\<lambda>c. d r q - th \<le> lab c \<and> lab c \<le> d r q + th) cs))"

text \<open>
  The contract of the distance function (class docstring: positivity, symmetry and the
  triangle inequality): zero exactly between equal items, symmetric, triangle inequality.
\<close>

definition metric :: "(item \<Rightarrow> item \<Rightarrow> int) \<Rightarrow> bool" where
  "metric d \<longleftrightarrow>
     (\<forall>x y. (d x y = 0) = (x = y)) \<and> (\<forall>x y. d x y = d y x) \<and> (\<forall>x y z. d x z \<le> d x y + d y z)"

text \<open>
  The property the pruning rests on: every item below an arc is at the arc's label from
  the arc's parent.
\<close>

fun bk_inv :: "(item \<Rightarrow> item \<Rightarrow> int) \<Rightarrow> bk \<Rightarrow> bool" where
  "bk_inv d (Node l r cs) = (\<forall>c\<in>set cs. (\<forall>y\<in>iset c. d r y = lab c) \<and> bk_inv d c)"

text \<open>
  A generator seen on the tree: its stack holds, for each activation, the subtree it was
  created for, or the children its loop has still to visit. \<open>aflat\<close> is what an activation
  will still yield, \<open>fwork\<close> bounds the steps it will still take, and \<open>gen_of\<close> ties a
  generator of the model to such a stack.
\<close>

datatype aframe = AStart bk | AYield bk | ALoop int "bk list"

fun conc :: "(item \<Rightarrow> item \<Rightarrow> int) \<Rightarrow> item \<Rightarrow> aframe \<Rightarrow> frame" where
  "conc d q (AStart t) = Start (val t)"
| "conc d q (AYield t) = AtYield (val t) (d (val t) q)"
| "conc d q (ALoop dist cs) = Loop dist (map arc_of cs)"

fun aflat :: "(item \<Rightarrow> item \<Rightarrow> int) \<Rightarrow> item \<Rightarrow> int \<Rightarrow> aframe \<Rightarrow> item list" where
  "aflat d q th (AStart t) = afind d q th t"
| "aflat d q th (AYield t) =
     concat (map (afind d q th)
       (filter (\<lambda>c. d (val t) q - th \<le> lab c \<and> lab c \<le> d (val t) q + th) (kids t)))"
| "aflat d q th (ALoop dist cs) =
     concat (map (afind d q th) (filter (\<lambda>c. dist - th \<le> lab c \<and> lab c \<le> dist + th) cs))"

fun frame_ok :: "(item \<rightharpoonup> arc list) \<Rightarrow> aframe \<Rightarrow> bool" where
  "frame_ok m (AStart t) = repr m t"
| "frame_ok m (AYield t) = repr m t"
| "frame_ok m (ALoop dist cs) = (\<forall>c\<in>set cs. repr m c)"

fun work :: "bk \<Rightarrow> nat" where
  "work (Node l r cs) = 3 + sum_list (map (\<lambda>c. Suc (work c)) cs)"

fun fwork :: "aframe \<Rightarrow> nat" where
  "fwork (AStart t) = work t"
| "fwork (AYield t) = work t - 1"
| "fwork (ALoop dist cs) = 1 + sum_list (map (\<lambda>c. Suc (work c)) cs)"

definition gen_of :: "BKtree \<Rightarrow> generator \<Rightarrow> aframe list \<Rightarrow> bool" where
  "gen_of self g as \<longleftrightarrow>
     frames g = map (conc (distance self) (g_item g)) as \<and>
     (\<forall>f\<in>set as. frame_ok (map_of (nodes self)) f)"

definition gen_out :: "BKtree \<Rightarrow> generator \<Rightarrow> aframe list \<Rightarrow> item list" where
  "gen_out self g as = concat (map (aflat (distance self) (g_item g) (g_threshold g)) as)"

definition gen_res ::
  "BKtree \<Rightarrow> generator \<Rightarrow> item list \<Rightarrow> bool" where
  "gen_res self g out \<longleftrightarrow>
     (\<exists>v g' as'. gen_next self g = Some (Inr (v, g', self)) \<and> gen_of self g' as' \<and>
        g_item g' = g_item g \<and> g_threshold g' = g_threshold g \<and>
        (case out of [] \<Rightarrow> v = None \<and> gen_out self g' as' = []
         | y # ys \<Rightarrow> v = Some y \<and> gen_out self g' as' = ys))"

section \<open>The table computes the minimum number of edits\<close>

lemma lev_Nil2 [simp]: "lev xs [] = length xs"
  by (cases xs) simp_all

lemma lev_sym: "lev xs ys = lev ys xs"
  by (induction xs ys rule: lev.induct) (simp_all add: min.left_commute)

lemma lev_refl [simp]: "lev xs xs = 0"
  by (induction xs) simp_all

lemma lev_cons_bounds:
  "lev (x # xs) ys \<le> Suc (lev xs ys) \<and> lev xs ys \<le> Suc (lev (x # xs) ys)"
proof (induction "length xs + length ys" arbitrary: xs ys x rule: less_induct)
  case less
  show ?case
  proof (cases ys)
    case Nil
    then show ?thesis by simp
  next
    case (Cons w ws)
    have e1: "lev xs (w # ws) \<le> Suc (lev xs ws)"
      using less [of ws xs w] Cons by (simp add: lev_sym)
    have e2: "lev xs ws \<le> Suc (lev xs (w # ws))"
      using less [of ws xs w] Cons by (simp add: lev_sym)
    have e3: "lev xs ws \<le> Suc (lev (x # xs) ws)"
      using less [of xs ws x] Cons by simp
    show ?thesis
    proof (cases "x = w")
      case True
      then show ?thesis using Cons e1 e2 by simp
    next
      case False
      then show ?thesis using Cons e1 e3 by (simp add: min_def)
    qed
  qed
qed

lemma lev_del_head: "lev (x # xs) ys \<le> Suc (lev xs ys)"
  using lev_cons_bounds [of x xs ys] by simp

lemma lev_ins_head: "lev xs ys \<le> Suc (lev (x # xs) ys)"
  using lev_cons_bounds [of x xs ys] by simp

lemma lev_diag: "lev (x # xs) (w # ws) \<le> Suc (lev xs ws)"
  by (simp add: min_def)

lemma lev_del_head2: "lev xs (w # ws) \<le> Suc (lev xs ws)"
  using lev_del_head [of w ws xs] by (simp add: lev_sym)

lemma lev_sub_head: "lev (x # v) ys \<le> Suc (lev (y # v) ys)"
proof (induction ys)
  case Nil
  show ?case by simp
next
  case (Cons w ws)
  have u1: "lev (x # v) (w # ws) \<le> Suc (lev v ws)" by (rule lev_diag)
  have u2: "lev (x # v) (w # ws) \<le> Suc (lev v (w # ws))" by (rule lev_del_head)
  have u3: "lev (x # v) (w # ws) \<le> Suc (lev (x # v) ws)" by (rule lev_del_head2)
  show ?case
  proof (cases "y = w")
    case True
    then show ?thesis using u1 by simp
  next
    case False
    have "lev (y # v) (w # ws) = Suc (min (lev v (w # ws)) (min (lev (y # v) ws) (lev v ws)))"
      using False by simp
    then show ?thesis using u1 u2 u3 Cons.IH by (simp only:)
  qed
qed

lemma lev_context:
  assumes "\<And>ys. lev xs ys \<le> Suc (lev zs ys)"
  shows "lev (x # xs) ys \<le> Suc (lev (x # zs) ys)"
proof (induction ys)
  case Nil
  show ?case using assms [of "[]"] by simp
next
  case (Cons w ws)
  show ?case
  proof (cases "x = w")
    case True
    then show ?thesis using assms [of ws] by simp
  next
    case False
    have "lev (x # xs) (w # ws) = Suc (min (lev xs (w # ws)) (min (lev (x # xs) ws) (lev xs ws)))"
      "lev (x # zs) (w # ws) = Suc (min (lev zs (w # ws)) (min (lev (x # zs) ws) (lev zs ws)))"
      using False by simp_all
    then show ?thesis
      using assms [of "w # ws"] assms [of ws] Cons.IH by (simp add: min_def)
  qed
qed

lemma lev_prefix:
  assumes "\<And>ys. lev xs ys \<le> Suc (lev zs ys)"
  shows "lev (u @ xs) ys \<le> Suc (lev (u @ zs) ys)"
proof (induction u arbitrary: ys)
  case Nil
  show ?case using assms by simp
next
  case (Cons x u)
  show ?case using lev_context [of "u @ xs" "u @ zs" x ys] Cons.IH by simp
qed

lemma lev_step:
  assumes "edit_step xs zs"
  shows "lev xs ys \<le> Suc (lev zs ys)"
  using assms
proof cases
  case (ins u v x)
  show ?thesis unfolding ins by (rule lev_prefix) (rule lev_ins_head)
next
  case (del u x v)
  show ?thesis unfolding del by (rule lev_prefix) (rule lev_del_head)
next
  case (sub u x v y)
  show ?thesis unfolding sub by (rule lev_prefix) (rule lev_sub_head)
qed

lemma lev_lower:
  assumes "(edit_step ^^ n) xs ys"
  shows "lev xs ys \<le> n"
  using assms
proof (induction n arbitrary: xs)
  case 0
  then show ?case by simp
next
  case (Suc n)
  obtain zs where z: "edit_step xs zs" "(edit_step ^^ n) zs ys"
    using relpowp_Suc_D2 [OF Suc.prems] by blast
  have "lev xs ys \<le> Suc (lev zs ys)" using z(1) by (rule lev_step)
  moreover have "lev zs ys \<le> n" using z(2) by (rule Suc.IH)
  ultimately show ?case by simp
qed

lemma edit_step_Cons:
  assumes "edit_step a b"
  shows "edit_step (x # a) (x # b)"
  using assms
proof cases
  case (ins u v y)
  show ?thesis unfolding ins using edit_step.ins [of "x # u" v y] by simp
next
  case (del u y v)
  show ?thesis unfolding del using edit_step.del [of "x # u" y v] by simp
next
  case (sub u y v z)
  show ?thesis unfolding sub using edit_step.sub [of "x # u" y v z] by simp
qed

lemma edit_path_Cons: "(edit_step ^^ n) a b \<Longrightarrow> (edit_step ^^ n) (x # a) (x # b)"
proof (induction n arbitrary: b)
  case 0
  then show ?case by simp
next
  case (Suc n)
  then obtain c where c: "(edit_step ^^ n) a c" "edit_step c b" by auto
  have "(edit_step ^^ n) (x # a) (x # c)" using c(1) by (rule Suc.IH)
  moreover have "edit_step (x # c) (x # b)" using c(2) by (rule edit_step_Cons)
  ultimately show ?case by auto
qed

lemma edit_step_del_head: "edit_step (x # xs) xs"
  using edit_step.del [of "[]" x xs] by simp

lemma edit_step_ins_head: "edit_step xs (x # xs)"
  using edit_step.ins [of "[]" xs x] by simp

lemma edit_step_sub_head: "edit_step (x # xs) (y # xs)"
  using edit_step.sub [of "[]" x xs y] by simp

lemma edit_path_ins: "(edit_step ^^ length ys) [] ys"
proof (induction ys)
  case Nil
  show ?case by simp
next
  case (Cons y ys)
  have 1: "edit_step [] [y]" using edit_step_ins_head [of "[]" y] by simp
  have 2: "(edit_step ^^ length ys) [y] (y # ys)"
    using edit_path_Cons [OF Cons.IH] by simp
  show ?case using relpowp_Suc_I2 [OF 1 2] by simp
qed

lemma edit_path_del: "(edit_step ^^ length xs) xs []"
proof (induction xs)
  case Nil
  show ?case by simp
next
  case (Cons x xs)
  have 1: "edit_step (x # xs) xs" by (rule edit_step_del_head)
  show ?case using relpowp_Suc_I2 [OF 1 Cons.IH] by simp
qed

lemma lev_upper: "(edit_step ^^ lev xs ys) xs ys"
proof (induction xs ys rule: lev.induct)
  case (1 ys)
  show ?case using edit_path_ins by simp
next
  case (2 x xs)
  show ?case using edit_path_del [of "x # xs"] by simp
next
  case (3 x xs y ys)
  show ?case
  proof (cases "x = y")
    case True
    then show ?thesis using edit_path_Cons [OF 3(1) [OF True]] by simp
  next
    case False
    let ?A = "lev xs (y # ys)" and ?B = "lev (x # xs) ys" and ?C = "lev xs ys"
    have pa: "(edit_step ^^ Suc ?A) (x # xs) (y # ys)"
      by (rule relpowp_Suc_I2 [OF edit_step_del_head 3(2) [OF False]])
    have pb: "(edit_step ^^ Suc ?B) (x # xs) (y # ys)"
      by (rule relpowp_Suc_I [OF 3(3) [OF False] edit_step_ins_head])
    have pc: "(edit_step ^^ Suc ?C) (x # xs) (y # ys)"
      by (rule relpowp_Suc_I2 [OF edit_step_sub_head edit_path_Cons [OF 3(4) [OF False]]])
    have "lev (x # xs) (y # ys) = Suc (min ?A (min ?B ?C))" using False by simp
    moreover have "min ?A (min ?B ?C) = ?A \<or> min ?A (min ?B ?C) = ?B \<or> min ?A (min ?B ?C) = ?C"
      by (simp add: min_def)
    ultimately show ?thesis using pa pb pc by metis
  qed
qed

lemma edit_step_rev:
  assumes "edit_step a b"
  shows "edit_step (rev a) (rev b)"
  using assms
proof cases
  case (ins u v y)
  show ?thesis unfolding ins using edit_step.ins [of "rev v" "rev u" y] by simp
next
  case (del u y v)
  show ?thesis unfolding del using edit_step.del [of "rev v" y "rev u"] by simp
next
  case (sub u y v z)
  show ?thesis unfolding sub using edit_step.sub [of "rev v" y "rev u" z] by simp
qed

lemma edit_step_sym:
  assumes "edit_step a b"
  shows "edit_step b a"
  using assms
proof cases
  case (ins u v y)
  show ?thesis unfolding ins by (rule edit_step.del)
next
  case (del u y v)
  show ?thesis unfolding del by (rule edit_step.ins)
next
  case (sub u y v z)
  show ?thesis unfolding sub by (rule edit_step.sub)
qed

lemma edit_path_rev: "(edit_step ^^ n) a b \<Longrightarrow> (edit_step ^^ n) (rev a) (rev b)"
proof (induction n arbitrary: b)
  case 0
  then show ?case by simp
next
  case (Suc n)
  then obtain c where c: "(edit_step ^^ n) a c" "edit_step c b" by auto
  have "(edit_step ^^ n) (rev a) (rev c)" using c(1) by (rule Suc.IH)
  moreover have "edit_step (rev c) (rev b)" using c(2) by (rule edit_step_rev)
  ultimately show ?case by auto
qed

lemma fold_upt_inv:
  assumes "P lo s" and "\<And>i s. lo \<le> i \<Longrightarrow> i < hi \<Longrightarrow> P i s \<Longrightarrow> P (Suc i) (f i s)"
    and "lo \<le> hi"
  shows "P hi (fold f [lo..<hi] s)"
proof -
  have "lo \<le> k \<Longrightarrow> k \<le> hi \<Longrightarrow> P k (fold f [lo..<k] s)" for k
  proof (induction k)
    case 0
    then show ?case using assms(1) by simp
  next
    case (Suc k)
    show ?case
    proof (cases "lo = Suc k")
      case True
      then show ?thesis using assms(1) by simp
    next
      case False
      then have lk: "lo \<le> k" using Suc.prems(1) by simp
      have "P k (fold f [lo..<k] s)" using Suc.IH lk Suc.prems(2) by simp
      then have "P (Suc k) (f k (fold f [lo..<k] s))"
        using assms(2) lk Suc.prems(2) by simp
      then show ?thesis using lk by simp
    qed
  qed
  then show ?thesis using assms(3) by simp
qed

lemma tab_0 [simp]: "j \<le> length b \<Longrightarrow> lev_prefix_tab a b 0 j = int j"
  by (simp add: lev_prefix_tab_def)

lemma tab_0' [simp]: "i \<le> length a \<Longrightarrow> lev_prefix_tab a b i 0 = int i"
  by (simp add: lev_prefix_tab_def)

lemma tab_Suc:
  assumes "i < length a" "j < length b"
  shows "lev_prefix_tab a b (Suc i) (Suc j) =
     (if a ! i = b ! j then lev_prefix_tab a b i j
      else min (lev_prefix_tab a b i (Suc j) + 1)
             (min (lev_prefix_tab a b (Suc i) j + 1) (lev_prefix_tab a b i j + 1)))"
proof -
  have a: "rev (take (Suc i) a) = a ! i # rev (take i a)"
    using assms(1) by (simp add: take_Suc_conv_app_nth)
  have b: "rev (take (Suc j) b) = b ! j # rev (take j b)"
    using assms(2) by (simp add: take_Suc_conv_app_nth)
  show ?thesis
    unfolding lev_prefix_tab_def a b by (simp add: min_def)
qed

lemma table_correct:
  assumes "length b \<le> length a"
  shows "edit_distance a b = lev_prefix_tab a b (length a) (length b)"
proof -
  let ?n = "length a" and ?m = "length b"
  let ?T = "lev_prefix_tab a b"
  define f1 :: "nat \<Rightarrow> table \<Rightarrow> table" where "f1 = (\<lambda>i d. d((i, 0) \<mapsto> int i))"
  define f2 :: "nat \<Rightarrow> table \<Rightarrow> table" where "f2 = (\<lambda>j d. d((0, j) \<mapsto> int j))"
  define f3 :: "nat \<Rightarrow> nat \<Rightarrow> table \<Rightarrow> table" where
    "f3 = (\<lambda>j i d.
        if a ! (i - 1) = b ! (j - 1)
        then d((i, j) \<mapsto> dget d (i - 1, j - 1))
        else d((i, j) \<mapsto> min (dget d (i - 1, j) + 1)
                            (min (dget d (i, j - 1) + 1) (dget d (i - 1, j - 1) + 1))))"
  define d1 where "d1 = fold f1 [1..<?n + 1] Map.empty"
  define d2 where "d2 = fold f2 [1..<?m + 1] d1"
  define d3 where "d3 = fold (\<lambda>j d. fold (f3 j) [1..<?n + 1] d) [1..<?m + 1] d2"
  have run: "edit_distance a b = dget d3 (?n, ?m)"
    using assms
    by (subst edit_distance.simps) (simp add: Let_def d1_def d2_def d3_def f1_def f2_def f3_def)
  have q1: "\<forall>k<?n + 1. dget d1 (k, 0) = int k"
    unfolding d1_def
  proof (rule fold_upt_inv [where P = "\<lambda>i d. \<forall>k<i. dget d (k, 0) = int k"])
    show "\<forall>k<1. dget Map.empty (k, 0) = int k" by (simp add: dget_def)
  next
    fix i d assume "1 \<le> i" "i < ?n + 1" "\<forall>k<i. dget d (k, 0) = int k"
    then show "\<forall>k<Suc i. dget (f1 i d) (k, 0) = int k"
      by (auto simp: f1_def dget_def less_Suc_eq)
  next
    show "1 \<le> ?n + 1" by simp
  qed
  have q2: "(\<forall>k\<le>?n. dget d2 (k, 0) = int k) \<and> (\<forall>k<?m + 1. dget d2 (0, k) = int k)"
    unfolding d2_def
  proof (rule fold_upt_inv [where P = "\<lambda>j d. (\<forall>k\<le>?n. dget d (k, 0) = int k) \<and>
                                            (\<forall>k<j. dget d (0, k) = int k)"])
    show "(\<forall>k\<le>?n. dget d1 (k, 0) = int k) \<and> (\<forall>k<1. dget d1 (0, k) = int k)"
      using q1 by simp
  next
    fix j d assume "1 \<le> j" "j < ?m + 1"
      "(\<forall>k\<le>?n. dget d (k, 0) = int k) \<and> (\<forall>k<j. dget d (0, k) = int k)"
    then show "(\<forall>k\<le>?n. dget (f2 j d) (k, 0) = int k) \<and> (\<forall>k<Suc j. dget (f2 j d) (0, k) = int k)"
      by (auto simp: f2_def dget_def less_Suc_eq)
  next
    show "1 \<le> ?m + 1" by simp
  qed
  define R where "R = (\<lambda>j (d :: table). \<forall>i' j'. i' \<le> ?n \<longrightarrow> j' \<le> ?m \<longrightarrow> (j' < j \<or> i' = 0) \<longrightarrow>
                        dget d (i', j') = ?T i' j')"
  define S where "S = (\<lambda>j i (d :: table). \<forall>i' j'. i' \<le> ?n \<longrightarrow> j' \<le> ?m \<longrightarrow>
                        (j' < j \<or> i' = 0 \<or> (j' = j \<and> i' < i)) \<longrightarrow> dget d (i', j') = ?T i' j')"
  have inner: "S j (Suc i) (f3 j i d)" if ij: "1 \<le> i" "i < ?n + 1" "1 \<le> j" "j < ?m + 1"
    and S: "S j i d" for i j d
  proof -
    obtain p q where pq: "i = Suc p" "j = Suc q" "p < ?n" "q < ?m"
      using ij by (cases i; cases j) auto
    have Sr: "\<And>i' j'. i' \<le> ?n \<Longrightarrow> j' \<le> ?m \<Longrightarrow> j' < j \<or> i' = 0 \<or> (j' = j \<and> i' < i) \<Longrightarrow>
                dget d (i', j') = ?T i' j'"
      using S unfolding S_def by blast
    have c1: "dget d (p, q) = ?T p q" using pq by (intro Sr) auto
    have c2: "dget d (p, Suc q) = ?T p (Suc q)" using pq by (intro Sr) auto
    have c3: "dget d (Suc p, q) = ?T (Suc p) q" using pq by (intro Sr) auto
    have new: "dget (f3 j i d) (i, j) = ?T i j"
      unfolding pq(1,2) tab_Suc [OF pq(3,4)]
      by (simp add: f3_def dget_def c1 [unfolded dget_def] c2 [unfolded dget_def]
          c3 [unfolded dget_def])
    have old: "dget (f3 j i d) k = dget d k" if "k \<noteq> (i, j)" for k
      using that by (simp add: f3_def dget_def)
    show ?thesis
      unfolding S_def
    proof (intro allI impI)
      fix i' j' assume b: "i' \<le> ?n" "j' \<le> ?m" and r: "j' < j \<or> i' = 0 \<or> (j' = j \<and> i' < Suc i)"
      show "dget (f3 j i d) (i', j') = ?T i' j'"
      proof (cases "(i', j') = (i, j)")
        case True
        then show ?thesis using new by simp
      next
        case False
        then have "j' < j \<or> i' = 0 \<or> (j' = j \<and> i' < i)" using r by auto
        then have "dget d (i', j') = ?T i' j'" using b by (intro Sr) auto
        then show ?thesis using old [OF False] by simp
      qed
    qed
  qed
  have outer: "R (Suc j) (fold (f3 j) [1..<?n + 1] d)" if j: "1 \<le> j" "j < ?m + 1" and R: "R j d"
    for j d
  proof -
    define d' where "d' = fold (f3 j) [1..<?n + 1] d"
    have "S j 1 d" using R unfolding R_def S_def by auto
    then have "S j (?n + 1) d'"
      unfolding d'_def
      by (rule fold_upt_inv [where P = "S j"]) (use inner j in auto)
    then have Sr: "\<And>i' j'. i' \<le> ?n \<Longrightarrow> j' \<le> ?m \<Longrightarrow>
        j' < j \<or> i' = 0 \<or> (j' = j \<and> i' < ?n + 1) \<Longrightarrow> dget d' (i', j') = ?T i' j'"
      unfolding S_def by blast
    have "R (Suc j) d'"
      unfolding R_def
    proof (intro allI impI)
      fix i' j' assume b: "i' \<le> ?n" "j' \<le> ?m" "j' < Suc j \<or> i' = 0"
      then have "j' < j \<or> i' = 0 \<or> (j' = j \<and> i' < ?n + 1)" by auto
      then show "dget d' (i', j') = ?T i' j'" using b(1,2) by (rule Sr [rotated 2])
    qed
    then show ?thesis unfolding d'_def .
  qed
  have "R 1 d2" using q2 unfolding R_def by auto
  then have "R (?m + 1) d3"
    unfolding d3_def
    by (rule fold_upt_inv [where P = R]) (use outer in auto)
  then have "dget d3 (?n, ?m) = ?T ?n ?m" unfolding R_def by simp
  then show ?thesis using run by simp
qed

lemma edit_distance_lev: "edit_distance a b = int (lev (rev a) (rev b))"
proof (cases "length a < length b")
  case False
  then show ?thesis using table_correct [of b a] by (simp add: lev_prefix_tab_def)
next
  case True
  then have "edit_distance a b = edit_distance b a"
    by (subst edit_distance.simps) simp
  also have "\<dots> = int (lev (rev b) (rev a))"
    using True table_correct [of a b] by (simp add: lev_prefix_tab_def)
  finally show ?thesis by (simp add: lev_sym)
qed

lemma edit_path_iff_rev: "(edit_step ^^ n) (rev a) (rev b) = (edit_step ^^ n) a b"
  using edit_path_rev [of n a b] edit_path_rev [of n "rev a" "rev b"] by auto

lemma edit_distance_path: "(edit_step ^^ nat (edit_distance a b)) a b"
  using lev_upper [of "rev a" "rev b"] by (simp add: edit_distance_lev edit_path_iff_rev)

lemma edit_distance_least: "(edit_step ^^ n) a b \<Longrightarrow> edit_distance a b \<le> int n"
  using lev_lower [of n "rev a" "rev b"] by (simp add: edit_distance_lev edit_path_iff_rev)

lemma edit_distance_nonneg: "0 \<le> edit_distance a b"
  by (simp add: edit_distance_lev)

lemma edit_distance_sym: "edit_distance a b = edit_distance b a"
  by (simp add: edit_distance_lev lev_sym)

lemma edit_distance_refl: "edit_distance a a = 0"
  by (simp add: edit_distance_lev)

lemma edit_distance_zero: "edit_distance a b = 0 \<Longrightarrow> a = b"
  using edit_distance_path [of a b] by simp

lemma edit_distance_triangle: "edit_distance a c \<le> edit_distance a b + edit_distance b c"
proof -
  let ?k = "nat (edit_distance a b)" and ?l = "nat (edit_distance b c)"
  have "(edit_step ^^ (?k + ?l)) a c"
    using edit_distance_path [of a b] edit_distance_path [of b c]
    by (auto simp: relpowp_add)
  then have "edit_distance a c \<le> int (?k + ?l)" by (rule edit_distance_least)
  then show ?thesis using edit_distance_nonneg [of a b] edit_distance_nonneg [of b c] by simp
qed

lemma edit_distance_Nil1: "edit_distance [] b = int (length b)"
  by (simp add: edit_distance_lev)

lemma edit_distance_Nil2: "edit_distance a [] = int (length a)"
  by (simp add: edit_distance_lev)

section \<open>Construction and queries on the represented tree\<close>

lemma val_ains [simp]: "val (ains d x t) = val t"
  by (cases t) simp

lemma lab_ains [simp]: "lab (ains d x t) = lab t"
  by (cases t) simp

lemma arc_of_ains [simp]: "arc_of (ains d x t) = arc_of t"
  by (simp add: arc_of_def)

lemma val_in_iset [simp]: "val t \<in> iset t"
  by (cases t) simp

lemma iset_ains_upper: "iset (ains d x t) \<subseteq> insert x (iset t)"
proof (induction t)
  case (Node l r cs)
  show ?case using Node.IH by (auto split: if_splits)
qed

lemma iset_ains_lower: "iset t \<subseteq> iset (ains d x t)"
proof (induction t)
  case (Node l r cs)
  show ?case using Node.IH by (auto split: if_splits)
qed

lemma iset_ains_pos:
  assumes "\<And>y. y \<in> iset t \<Longrightarrow> 0 < d y x"
  shows "iset (ains d x t) = insert x (iset t)"
  using assms
proof (induction t)
  case (Node l r cs)
  have r: "0 < d r x" using Node.prems by simp
  show ?case
  proof (cases "d r x \<in> lab ` set cs")
    case False
    then show ?thesis using r by auto
  next
    case True
    then obtain c where c: "c \<in> set cs" "lab c = d r x" by auto
    have "iset (ains d x c) = insert x (iset c)"
      using Node.IH [OF c(1)] Node.prems c(1) by auto
    then have "x \<in> iset (ains d x (Node l r cs))"
      using c r True by auto
    moreover have "iset (Node l r cs) \<subseteq> iset (ains d x (Node l r cs))"
      by (rule iset_ains_lower)
    ultimately show ?thesis
      using iset_ains_upper [of d x "Node l r cs"] by blast
  qed
qed

lemma shape_ains:
  assumes "shape t" "x \<notin> iset t"
  shows "shape (ains d x t)"
  using assms
proof (induction t)
  case (Node l r cs)
  let ?f = "\<lambda>c. if lab c = d r x then ains d x c else c"
  have labf: "map lab (map ?f cs) = map lab cs"
    by (induction cs) auto
  have sub: "\<And>c. c \<in> set cs \<Longrightarrow> iset (?f c) \<subseteq> insert x (iset c)"
    using iset_ains_upper by auto
  show ?case
  proof (cases "0 < d r x")
    case False
    then show ?thesis using Node.prems by simp
  next
    case pos: True
    show ?thesis
    proof (cases "d r x \<in> lab ` set cs")
      case False
      then show ?thesis using pos Node.prems by (auto simp: image_iff)
    next
      case True
      have 1: "distinct (map lab (map ?f cs))"
        using Node.prems(1) unfolding labf by simp
      have 2: "\<forall>c\<in>set (map ?f cs). 0 < lab c \<and> r \<notin> iset c \<and> shape c"
      proof
        fix c' assume "c' \<in> set (map ?f cs)"
        then obtain c where c: "c \<in> set cs" "c' = ?f c" by auto
        have "x \<notin> iset c" "shape c" "r \<notin> iset c" "0 < lab c" "r \<noteq> x"
          using Node.prems c(1) by auto
        then show "0 < lab c' \<and> r \<notin> iset c' \<and> shape c'"
          using c Node.IH [OF c(1)] sub [OF c(1)] by auto
      qed
      have 3: "\<forall>a\<in>set (map ?f cs). \<forall>b\<in>set (map ?f cs).
                 lab a \<noteq> lab b \<longrightarrow> iset a \<inter> iset b = {}"
      proof (intro ballI impI)
        fix a b assume "a \<in> set (map ?f cs)" "b \<in> set (map ?f cs)" and ne: "lab a \<noteq> lab b"
        then obtain ca cb where ab: "ca \<in> set cs" "a = ?f ca" "cb \<in> set cs" "b = ?f cb"
          by auto
        have lne: "lab ca \<noteq> lab cb" using ne ab by (auto split: if_splits)
        then have dj: "iset ca \<inter> iset cb = {}" using Node.prems(1) ab by auto
        have nx: "x \<notin> iset ca" "x \<notin> iset cb" using Node.prems(2) ab by auto
        show "iset a \<inter> iset b = {}"
          using dj nx lne sub [OF ab(1)] sub [OF ab(3)] ab(2,4)
          by (auto split: if_splits)
      qed
      show ?thesis using pos True 1 2 3 by simp
    qed
  qed
qed

lemma repr_cong:
  assumes "\<And>k. k \<in> iset t \<Longrightarrow> m' k = m k"
  shows "repr m' t = repr m t"
  using assms
proof (induction t)
  case (Node l x cs)
  have "\<And>c. c \<in> set cs \<Longrightarrow> repr m' c = repr m c"
    using Node by auto
  then show ?case using Node.prems by auto
qed

lemma find_arc_of:
  "List.find (\<lambda>arc. dist = snd arc) (map arc_of cs) =
     map_option arc_of (List.find (\<lambda>c. lab c = dist) cs)"
  by (induction cs) (auto simp: arc_of_def)

lemma find_lab_Some:
  assumes "dist \<in> lab ` set cs"
  shows "\<exists>c. c \<in> set cs \<and> lab c = dist \<and> List.find (\<lambda>c. lab c = dist) cs = Some c"
  using assms by (induction cs) auto

lemma find_lab_None:
  assumes "dist \<notin> lab ` set cs"
  shows "List.find (\<lambda>c. lab c = dist) cs = None"
  using assms by (induction cs) auto

lemma set_diff_aux:
  "C \<subseteq> A \<Longrightarrow> B \<subseteq> insert x C \<Longrightarrow> C \<subseteq> B \<Longrightarrow> x \<notin> insert r A \<Longrightarrow>
     insert r (A \<union> B) - insert r A = B - C"
  by auto

lemma addLeaf_repr:
  assumes "repr (map_of (nodes self)) t" "shape t" "x \<notin> iset t"
    "map_of (nodes self) x = None"
  shows "\<exists>self'. addLeaf self (val t) x = Some (Inr self') \<and>
           distance self' = distance self \<and> root self' = root self \<and>
           repr (map_of (nodes self')) (ains (distance self) x t) \<and>
           (\<forall>k. k \<notin> iset t \<longrightarrow> k \<noteq> x \<longrightarrow> map_of (nodes self') k = map_of (nodes self) k) \<and>
           fst ` set (nodes self') = fst ` set (nodes self) \<union> (iset (ains (distance self) x t) - iset t) \<and>
           (distinct (map fst (nodes self)) \<longrightarrow> distinct (map fst (nodes self')))"
  using assms
proof (induction t)
  case (Node l r cs)
  let ?d = "distance self"
  let ?m = "map_of (nodes self)"
  have mr: "?m r = Some (map arc_of cs)" using Node.prems(1) by simp
  have rx: "r \<noteq> x" using Node.prems(3) by auto
  show ?case
  proof (cases "0 < ?d r x")
    case False
    then show ?thesis
      using Node.prems by (subst addLeaf.simps) simp
  next
    case pos: True
    show ?thesis
    proof (cases "?d r x \<in> lab ` set cs")
      case False
      let ?self1 = "self\<lparr>nodes := AList.update x [] (nodes self)\<rparr>"
      let ?self2 = "?self1\<lparr>nodes := AList.update r (map arc_of cs @ [(x, ?d r x)]) (nodes ?self1)\<rparr>"
      have fnd: "List.find (\<lambda>arc. ?d r x = snd arc) (map arc_of cs) = None"
        using find_lab_None [OF False] by (simp add: find_arc_of)
      have run: "addLeaf self r x = Some (Inr ?self2)"
        using pos mr fnd Node.prems(4) rx
        by (subst addLeaf.simps) (simp add: update_conv')
      let ?m2 = "map_of (nodes ?self2)"
      have m2: "?m2 = (?m(x \<mapsto> []))(r \<mapsto> map arc_of cs @ [(x, ?d r x)])"
        by (simp add: update_conv')
      have kids: "\<And>c. c \<in> set cs \<Longrightarrow> repr ?m2 c"
      proof -
        fix c assume c: "c \<in> set cs"
        have "r \<notin> iset c" "x \<notin> iset c" using Node.prems c by auto
        then have "\<And>k. k \<in> iset c \<Longrightarrow> ?m2 k = ?m k"
          unfolding m2 by auto
        then have "repr ?m2 c = repr ?m c" by (rule repr_cong)
        then show "repr ?m2 c" using Node.prems(1) c by simp
      qed
      have rep: "repr ?m2 (ains ?d x (Node l r cs))"
        using pos False kids rx unfolding m2 by (simp add: arc_of_def)
      have keys: "fst ` set (nodes ?self2) = fst ` set (nodes self) \<union> (iset (ains ?d x (Node l r cs)) - iset (Node l r cs))"
      proof -
        have "r \<in> fst ` set (nodes self)"
          using mr by (metis domI dom_map_of_conv_image_fst)
        moreover have "fst ` set (nodes ?self2) = insert r (insert x (fst ` set (nodes self)))"
          by (auto simp: dom_update)
        moreover have "iset (ains ?d x (Node l r cs)) - iset (Node l r cs) = {x}"
          using pos False Node.prems(3) by auto
        ultimately show ?thesis by auto
      qed
      show ?thesis
        using run rep keys rx val_in_iset [of "Node l r cs"]
        by (auto simp: distinct_update update_conv' simp del: ains.simps repr.simps iset.simps)
    next
      case True
      obtain c where c: "c \<in> set cs" "lab c = ?d r x"
        "List.find (\<lambda>c. lab c = ?d r x) cs = Some c"
        using find_lab_Some [OF True] by blast
      have fnd: "List.find (\<lambda>arc. ?d r x = snd arc) (map arc_of cs) = Some (arc_of c)"
        using c(3) by (simp add: find_arc_of)
      have step: "addLeaf self r x = addLeaf self (val c) x"
        using pos mr fnd by (subst addLeaf.simps) (simp add: arc_of_def)
      have pc: "repr ?m c" "shape c" "x \<notin> iset c"
        using Node.prems c(1) by auto
      obtain self' where s': "addLeaf self (val c) x = Some (Inr self')"
        "distance self' = ?d" "root self' = root self"
        "repr (map_of (nodes self')) (ains ?d x c)"
        "\<And>k. k \<notin> iset c \<Longrightarrow> k \<noteq> x \<Longrightarrow> map_of (nodes self') k = ?m k"
        "fst ` set (nodes self') = fst ` set (nodes self) \<union> (iset (ains ?d x c) - iset c)"
        "distinct (map fst (nodes self)) \<longrightarrow> distinct (map fst (nodes self'))"
        using Node.IH [OF c(1) pc Node.prems(4)] by blast
      let ?m' = "map_of (nodes self')"
      let ?f = "\<lambda>c. if lab c = ?d r x then ains ?d x c else c"
      have uniq: "\<And>c'. c' \<in> set cs \<Longrightarrow> lab c' = ?d r x \<Longrightarrow> c' = c"
      proof -
        fix c' assume a: "c' \<in> set cs" "lab c' = ?d r x"
        have "inj_on lab (set cs)" using Node.prems(2) by (simp add: distinct_map)
        then show "c' = c" using a c(1,2) by (simp add: inj_on_def)
      qed
      have rc: "r \<notin> iset c" using Node.prems(2) c(1) by auto
      have m'r: "?m' r = Some (map arc_of (map ?f cs))"
      proof -
        have "map arc_of (map ?f cs) = map arc_of cs" by (induction cs) auto
        then show ?thesis using s'(5) [OF rc rx] mr by simp
      qed
      have kids: "\<And>c'. c' \<in> set cs \<Longrightarrow> repr ?m' (?f c')"
      proof -
        fix c' assume c': "c' \<in> set cs"
        show "repr ?m' (?f c')"
        proof (cases "lab c' = ?d r x")
          case True
          then show ?thesis using uniq [OF c' True] s'(4) by simp
        next
          case False
          then have "iset c' \<inter> iset c = {}"
            using Node.prems(2) c c' by auto
          moreover have "x \<notin> iset c'" using Node.prems(3) c' by auto
          ultimately have "\<And>k. k \<in> iset c' \<Longrightarrow> ?m' k = ?m k"
            using s'(5) by blast
          then have "repr ?m' c' = repr ?m c'" by (rule repr_cong)
          then show ?thesis using False Node.prems(1) c' by simp
        qed
      qed
      have eq: "ains ?d x (Node l r cs) = Node l r (map ?f cs)"
        using pos True by simp
      have "\<forall>k\<in>set (map ?f cs). repr ?m' k"
      proof
        fix k assume "k \<in> set (map ?f cs)"
        then obtain c0 where "c0 \<in> set cs" "k = ?f c0" by auto
        then show "repr ?m' k" using kids [of c0] by simp
      qed
      then have "repr ?m' (Node l r (map ?f cs))"
        using m'r unfolding repr.simps by blast
      then have rep: "repr ?m' (ains ?d x (Node l r cs))"
        using eq by simp
      have fr: "\<And>k. k \<notin> iset (Node l r cs) \<Longrightarrow> k \<noteq> x \<Longrightarrow> ?m' k = ?m k"
        using s'(5) c(1) by auto
      have new: "iset (ains ?d x (Node l r cs)) - iset (Node l r cs) = iset (ains ?d x c) - iset c"
      proof -
        have up: "iset (ains ?d x c) \<subseteq> insert x (iset c)" by (rule iset_ains_upper)
        have lo: "iset c \<subseteq> iset (ains ?d x c)" by (rule iset_ains_lower)
        have fc: "?f c = ains ?d x c" using c(2) by simp
        have fo: "\<And>c'. c' \<in> set cs \<Longrightarrow> c' \<noteq> c \<Longrightarrow> ?f c' = c'"
          using uniq by auto
        have "(\<Union>k\<in>set (map ?f cs). iset k) = (\<Union>c'\<in>set cs. iset c') \<union> iset (ains ?d x c)"
        proof (intro equalityI subsetI)
          fix y assume "y \<in> (\<Union>k\<in>set (map ?f cs). iset k)"
          then obtain c0 where c0: "c0 \<in> set cs" "y \<in> iset (?f c0)" by auto
          show "y \<in> (\<Union>c'\<in>set cs. iset c') \<union> iset (ains ?d x c)"
          proof (cases "c0 = c")
            case True
            with c0(2) c(2) show ?thesis by simp
          next
            case False
            then show ?thesis using c0 fo [OF c0(1) False] by auto
          qed
        next
          fix y assume "y \<in> (\<Union>c'\<in>set cs. iset c') \<union> iset (ains ?d x c)"
          then consider c0 where "c0 \<in> set cs" "y \<in> iset c0" | "y \<in> iset (ains ?d x c)"
            by auto
          then show "y \<in> (\<Union>k\<in>set (map ?f cs). iset k)"
          proof cases
            case 1
            show ?thesis
            proof (cases "c0 = c")
              case True
              then have "y \<in> iset (?f c)" using 1(2) lo fc by auto
              then show ?thesis using c(1) unfolding set_map by blast
            next
              case False
              then have "y \<in> iset (?f c0)" using 1 fo [OF 1(1) False] by simp
              then show ?thesis using 1(1) unfolding set_map by blast
            qed
          next
            case 2
            then have "y \<in> iset (?f c)" using fc by simp
            then show ?thesis using c(1) unfolding set_map by blast
          qed
        qed
        then have "iset (Node l r (map ?f cs)) = insert r ((\<Union>c'\<in>set cs. iset c') \<union> iset (ains ?d x c))"
          unfolding iset.simps by simp
        then have "iset (ains ?d x (Node l r cs)) = insert r ((\<Union>c'\<in>set cs. iset c') \<union> iset (ains ?d x c))"
          using eq by simp
        moreover have "iset (Node l r cs) = insert r (\<Union>c'\<in>set cs. iset c')" by simp
        moreover have "iset c \<subseteq> (\<Union>c'\<in>set cs. iset c')" using c(1) by auto
        moreover have "x \<notin> insert r (\<Union>c'\<in>set cs. iset c')" using Node.prems(3) by simp
        ultimately show ?thesis using set_diff_aux [OF _ up lo] by simp
      qed
      have keys: "fst ` set (nodes self') =
          fst ` set (nodes self) \<union> (iset (ains ?d x (Node l r cs)) - iset (Node l r cs))"
        using s'(6) new by simp
      have "addLeaf self (val (Node l r cs)) x = Some (Inr self')"
        using step s'(1) by simp
      then show ?thesis
        using s'(2,3,7) rep fr keys by blast
    qed
  qed
qed

lemma map_of_None_iff: "map_of al k = None \<longleftrightarrow> k \<notin> fst ` set al"
  by (simp add: map_of_eq_None_iff)

lemma init_loop_tree_of:
  assumes "tree_of self t"
  shows "\<exists>self'. init_loop els self = Some (Inr self') \<and> distance self' = distance self \<and>
           root self' = root self \<and> tree_of self' (abuild (distance self) els t)"
  using assms
proof (induction els arbitrary: self t)
  case Nil
  then show ?case by simp
next
  case (Cons el els)
  show ?case
  proof (cases "el \<in> iset t")
    case True
    then have "map_of (nodes self) el \<noteq> None"
      using Cons.prems by (simp add: tree_of_def map_of_None_iff)
    then show ?thesis using Cons.IH [OF Cons.prems] True by auto
  next
    case False
    then have none: "map_of (nodes self) el = None"
      using Cons.prems by (simp add: tree_of_def map_of_None_iff)
    have pre: "repr (map_of (nodes self)) t" "shape t" "val t = root self"
      "fst ` set (nodes self) = iset t" "distinct (map fst (nodes self))"
      using Cons.prems by (simp_all add: tree_of_def)
    obtain self1 where s1: "addLeaf self (val t) el = Some (Inr self1)"
      "distance self1 = distance self" "root self1 = root self"
      "repr (map_of (nodes self1)) (ains (distance self) el t)"
      "fst ` set (nodes self1) = fst ` set (nodes self) \<union> (iset (ains (distance self) el t) - iset t)"
      "distinct (map fst (nodes self)) \<longrightarrow> distinct (map fst (nodes self1))"
      using addLeaf_repr [OF pre(1,2) False none] by blast
    have "iset t \<subseteq> iset (ains (distance self) el t)" by (rule iset_ains_lower)
    then have t1: "tree_of self1 (ains (distance self) el t)"
      using s1 pre shape_ains [OF pre(2) False] by (auto simp: tree_of_def)
    obtain self' where "init_loop els self1 = Some (Inr self')"
      "distance self' = distance self1" "root self' = root self1"
      "tree_of self' (abuild (distance self1) els (ains (distance self) el t))"
      using Cons.IH [OF t1] by blast
    then show ?thesis using none s1 pre(3) False by simp
  qed
qed

lemma BKtree_init_tree_of:
  "\<exists>self. BKtree_init (r # els) d = Some (Inr self) \<and> distance self = d \<and> root self = r \<and>
      tree_of self (abuild d els (Node 0 r []))"
proof -
  let ?s = "\<lparr>distance = d, nodes = [(r, [])], root = r\<rparr>"
  have "tree_of ?s (Node 0 r [])" by (simp add: tree_of_def)
  from init_loop_tree_of [OF this, of els] show ?thesis
    by (auto simp: BKtree_init_def)
qed

lemma for_loop_finder:
  assumes "\<And>c res. c \<in> set cs \<Longrightarrow>
     finder self (val c) q th res = Some (Inr (res @ afind (distance self) q th c, self))"
  shows "for_loop (\<lambda>arc (result', self').
                 if dmin \<le> snd arc \<and> snd arc \<le> dmax
                 then finder self' (fst arc) q th result'
                 else Some (Inr (result', self')))
              (map arc_of cs) (res, self) =
         Some (Inr (res @ concat (map (afind (distance self) q th)
                  (filter (\<lambda>c. dmin \<le> lab c \<and> lab c \<le> dmax) cs)), self))"
  using assms
proof (induction cs arbitrary: res)
  case Nil
  then show ?case by simp
next
  case (Cons c cs)
  then show ?case by (simp add: arc_of_def)
qed

lemma finder_repr:
  assumes "repr (map_of (nodes self)) t"
  shows "finder self (val t) q th res = Some (Inr (res @ afind (distance self) q th t, self))"
  using assms
proof (induction t arbitrary: res)
  case (Node l r cs)
  have mr: "map_of (nodes self) r = Some (map arc_of cs)" using Node.prems by simp
  have kids: "\<And>c res. c \<in> set cs \<Longrightarrow>
     finder self (val c) q th res = Some (Inr (res @ afind (distance self) q th c, self))"
    using Node.IH Node.prems by simp
  show ?case
    by (subst finder.simps) (simp add: mr for_loop_finder [OF kids] Let_def)
qed

lemma metric_nonneg: "metric d \<Longrightarrow> 0 \<le> d x y"
proof -
  assume m: "metric d"
  then have "d x x \<le> d x y + d y x" unfolding metric_def by blast
  moreover have "d x x = 0" "d y x = d x y" using m unfolding metric_def by auto
  ultimately show ?thesis by simp
qed

lemma metric_pos:
  assumes "metric d" "x \<noteq> y"
  shows "0 < d x y"
proof -
  have "d x y \<noteq> 0" using assms unfolding metric_def by blast
  moreover have "0 \<le> d x y" using assms(1) by (rule metric_nonneg)
  ultimately show ?thesis by simp
qed

lemma bk_inv_ains:
  assumes "bk_inv d t"
  shows "bk_inv d (ains d x t)"
  using assms
proof (induction t)
  case (Node l r cs)
  let ?f = "\<lambda>c. if lab c = d r x then ains d x c else c"
  show ?case
  proof (cases "0 < d r x")
    case False
    then show ?thesis using Node.prems by simp
  next
    case pos: True
    show ?thesis
    proof (cases "d r x \<in> lab ` set cs")
      case False
      have "bk_inv d (Node l r (cs @ [Node (d r x) x []]))"
        using Node.prems by auto
      then show ?thesis using pos False by simp
    next
      case True
      have "\<forall>k\<in>set (map ?f cs). (\<forall>y\<in>iset k. d r y = lab k) \<and> bk_inv d k"
      proof
        fix k assume "k \<in> set (map ?f cs)"
        then obtain c where c: "c \<in> set cs" "k = ?f c" by auto
        have old: "\<forall>y\<in>iset c. d r y = lab c" "bk_inv d c"
          using Node.prems c(1) by auto
        show "(\<forall>y\<in>iset k. d r y = lab k) \<and> bk_inv d k"
        proof (cases "lab c = d r x")
          case False
          then show ?thesis using c(2) old by simp
        next
          case eq: True
          have k: "k = ains d x c" using c(2) eq by simp
          have "iset (ains d x c) \<subseteq> insert x (iset c)" by (rule iset_ains_upper)
          then have "\<forall>y\<in>iset k. d r y = lab k"
            using old(1) eq k by auto
          moreover have "bk_inv d k" using Node.IH [OF c(1) old(2)] k by simp
          ultimately show ?thesis by simp
        qed
      qed
      then have "bk_inv d (Node l r (map ?f cs))"
        unfolding bk_inv.simps by blast
      moreover have "ains d x (Node l r cs) = Node l r (map ?f cs)"
        using pos True by simp
      ultimately show ?thesis by (simp only:)
    qed
  qed
qed

lemma bk_inv_abuild: "bk_inv d t \<Longrightarrow> bk_inv d (abuild d els t)"
  by (induction els arbitrary: t) (simp_all add: bk_inv_ains)

lemma iset_abuild_upper: "iset (abuild d els t) \<subseteq> iset t \<union> set els"
proof (induction els arbitrary: t)
  case Nil
  show ?case by simp
next
  case (Cons el els)
  show ?case
  proof (cases "el \<in> iset t")
    case True
    then show ?thesis using Cons.IH [of t] by auto
  next
    case False
    have "iset (ains d el t) \<subseteq> insert el (iset t)" by (rule iset_ains_upper)
    then show ?thesis using False Cons.IH [of "ains d el t"] by auto
  qed
qed

lemma iset_abuild_lower: "iset t \<subseteq> iset (abuild d els t)"
proof (induction els arbitrary: t)
  case Nil
  show ?case by simp
next
  case (Cons el els)
  have "iset t \<subseteq> iset (ains d el t)" by (rule iset_ains_lower)
  then show ?case using Cons.IH [of t] Cons.IH [of "ains d el t"] by auto
qed

lemma iset_abuild_pos:
  assumes "\<And>x y. x \<noteq> y \<Longrightarrow> 0 < d x y"
  shows "iset (abuild d els t) = iset t \<union> set els"
proof (induction els arbitrary: t)
  case Nil
  show ?case by simp
next
  case (Cons el els)
  show ?case
  proof (cases "el \<in> iset t")
    case True
    then show ?thesis using Cons.IH [of t] by auto
  next
    case False
    then have "\<And>y. y \<in> iset t \<Longrightarrow> 0 < d y el" using assms by metis
    then have "iset (ains d el t) = insert el (iset t)" by (rule iset_ains_pos)
    then show ?thesis using False Cons.IH [of "ains d el t"] by auto
  qed
qed

lemma set_afind_Node:
  "set (afind d q th (Node l r cs)) =
     (if d r q \<le> th then {r} else {}) \<union>
     (\<Union>c\<in>{c \<in> set cs. d r q - th \<le> lab c \<and> lab c \<le> d r q + th}. set (afind d q th c))"
  by auto

lemma afind_correct:
  assumes sym: "\<And>x y. d x y = d y x" and tri: "\<And>x y z. d x z \<le> d x y + d y z"
    and inv: "bk_inv d t"
  shows "set (afind d q th t) = {y \<in> iset t. d q y \<le> th}"
  using inv
proof (induction t)
  case (Node l r cs)
  have IH: "\<And>c. c \<in> set cs \<Longrightarrow> set (afind d q th c) = {y \<in> iset c. d q y \<le> th}"
    using Node by auto
  have lab: "\<And>c y. c \<in> set cs \<Longrightarrow> y \<in> iset c \<Longrightarrow> d r y = lab c"
    using Node.prems by auto
  have rq: "d r q = d q r" by (rule sym)
  show ?case
  proof (intro equalityI subsetI)
    fix y assume "y \<in> set (afind d q th (Node l r cs))"
    then consider "y = r" "d r q \<le> th"
      | c where "c \<in> set cs" "y \<in> set (afind d q th c)"
      unfolding set_afind_Node by (auto split: if_splits)
    then show "y \<in> {y \<in> iset (Node l r cs). d q y \<le> th}"
    proof cases
      case 1
      then show ?thesis using rq by simp
    next
      case 2
      then show ?thesis using IH [OF 2(1)] by auto
    qed
  next
    fix y assume "y \<in> {y \<in> iset (Node l r cs). d q y \<le> th}"
    then have y: "y \<in> iset (Node l r cs)" "d q y \<le> th" by auto
    show "y \<in> set (afind d q th (Node l r cs))"
    proof (cases "y = r")
      case True
      then show ?thesis using y(2) rq unfolding set_afind_Node by simp
    next
      case False
      then obtain c where c: "c \<in> set cs" "y \<in> iset c" using y(1) by auto
      have l: "d r y = lab c" using lab [OF c] .
      have "d r q \<le> d r y + d y q" by (rule tri)
      moreover have "d r y \<le> d r q + d q y" by (rule tri)
      moreover have "d y q = d q y" by (rule sym)
      ultimately have "d r q - th \<le> lab c \<and> lab c \<le> d r q + th"
        using l y(2) by linarith
      moreover have "y \<in> set (afind d q th c)" using IH [OF c(1)] c(2) y(2) by simp
      ultimately show ?thesis using c(1) unfolding set_afind_Node by blast
    qed
  qed
qed

lemma afind_mono:
  assumes "t1 \<le> t2"
  shows "set (afind d q t1 t) \<subseteq> set (afind d q t2 t)"
proof (induction t)
  case (Node l r cs)
  show ?case
  proof
    fix y assume "y \<in> set (afind d q t1 (Node l r cs))"
    then consider "y = r" "d r q \<le> t1"
      | c where "c \<in> set cs" "d r q - t1 \<le> lab c" "lab c \<le> d r q + t1" "y \<in> set (afind d q t1 c)"
      unfolding set_afind_Node by (auto split: if_splits)
    then show "y \<in> set (afind d q t2 (Node l r cs))"
    proof cases
      case 1
      then show ?thesis using assms unfolding set_afind_Node by simp
    next
      case 2
      have "y \<in> set (afind d q t2 c)" using Node.IH [OF 2(1)] 2(4) by auto
      moreover have "d r q - t2 \<le> lab c \<and> lab c \<le> d r q + t2" using 2(2,3) assms by linarith
      ultimately show ?thesis using 2(1) unfolding set_afind_Node by blast
    qed
  qed
qed

lemma afind_negative:
  assumes "th < 0" "0 \<le> d (val t) q"
  shows "afind d q th t = []"
proof (cases t)
  case (Node l r cs)
  have "filter (\<lambda>c. d r q - th \<le> lab c \<and> lab c \<le> d r q + th) cs = []"
    using assms(1) by (auto simp: filter_empty_conv)
  then show ?thesis using assms Node by simp
qed

lemma tree_of_nonempty: "tree_of self t \<Longrightarrow> nodes self \<noteq> []"
  using val_in_iset [of t] by (auto simp: tree_of_def)

lemma find_bk_tree_of:
  assumes "tree_of self t"
  shows "find_bk self q th = Some (Inr (afind (distance self) q th t, self))"
proof -
  have "repr (map_of (nodes self)) t" "val t = root self"
    using assms by (simp_all add: tree_of_def)
  then have "finder self (root self) q th [] = Some (Inr ([] @ afind (distance self) q th t, self))"
    using finder_repr [of self t q th "[]"] by simp
  then show ?thesis using tree_of_nonempty [OF assms] by (simp add: find_bk_def)
qed

lemma BKtree_init_Nil: "BKtree_init [] d = Some (Inr \<lparr>distance = d, nodes = [], root = []\<rparr>)"
  by (simp add: BKtree_init_def)

lemma repr_lookup:
  assumes "repr m t" "shape t" "k \<in> iset t"
  shows "\<exists>s. m k = Some (map arc_of (kids s)) \<and> shape s"
  using assms
proof (induction t)
  case (Node l r cs)
  show ?case
  proof (cases "k = r")
    case True
    have "m k = Some (map arc_of (kids (Node l r cs)))" using Node.prems(1) True by simp
    then show ?thesis using Node.prems(2) by blast
  next
    case False
    then obtain c where c: "c \<in> set cs" "k \<in> iset c" using Node.prems(3) by auto
    have "repr m c" "shape c" using Node.prems c(1) by auto
    then show ?thesis using Node.IH [OF c(1)] c(2) by blast
  qed
qed

lemma shape_labels:
  assumes "shape s"
  shows "distinct (map snd (map arc_of (kids s))) \<and> (\<forall>a\<in>set (map arc_of (kids s)). 0 < snd a)"
proof (cases s)
  case (Node l r cs)
  have "snd \<circ> arc_of = lab" by (auto simp: arc_of_def)
  then show ?thesis using assms Node by (auto simp: arc_of_def)
qed

lemma tree_of_arcs:
  assumes "tree_of T t" "(k, arcs) \<in> set (nodes T)"
  shows "distinct (map snd arcs) \<and> (\<forall>a\<in>set arcs. 0 < snd a)"
proof -
  have pre: "repr (map_of (nodes T)) t" "shape t" "fst ` set (nodes T) = iset t"
    "distinct (map fst (nodes T))"
    using assms(1) by (simp_all add: tree_of_def)
  have "k \<in> iset t" using assms(2) pre(3) by force
  then obtain s where s: "map_of (nodes T) k = Some (map arc_of (kids s))" "shape s"
    using repr_lookup [OF pre(1,2)] by blast
  have "map_of (nodes T) k = Some arcs"
    using assms(2) pre(4) by simp
  then have "arcs = map arc_of (kids s)" using s(1) by simp
  then show ?thesis using shape_labels [OF s(2)] by simp
qed

lemma init_loop_append:
  "init_loop (ys @ zs) s =
     (case init_loop ys s of
        None \<Rightarrow> None
      | Some (Inl e) \<Rightarrow> Some (Inl e)
      | Some (Inr s') \<Rightarrow> init_loop zs s')"
  by (induction ys arbitrary: s) (simp_all split: option.splits sum.splits)

lemma BKtree_init_discard:
  assumes "BKtree_init xs d = Some (Inr T)" "x \<in> fst ` set (nodes T)"
  shows "BKtree_init (xs @ x # zs) d = BKtree_init (xs @ zs) d"
proof (cases xs)
  case Nil
  then have "nodes T = []" using assms(1) by (auto simp: BKtree_init_Nil)
  then show ?thesis using assms(2) by simp
next
  case (Cons r els)
  let ?s = "\<lparr>distance = d, nodes = [(r, [])], root = r\<rparr>"
  have T: "init_loop els ?s = Some (Inr T)"
    using assms(1) Cons by (simp add: BKtree_init_def)
  have "map_of (nodes T) x \<noteq> None" using assms(2) by (simp add: map_of_None_iff)
  then have "init_loop (x # zs) T = init_loop zs T" by auto
  then show ?thesis
    using Cons T by (simp add: BKtree_init_def init_loop_append)
qed

lemma BKtree_init_cases:
  obtains (empty) "xs = []" "BKtree_init xs d = Some (Inr \<lparr>distance = d, nodes = [], root = []\<rparr>)"
  | (built) r els T where "xs = r # els" "BKtree_init xs d = Some (Inr T)" "distance T = d"
      "root T = r" "tree_of T (abuild d els (Node 0 r []))"
proof (cases xs)
  case Nil
  then show ?thesis using empty by (simp add: BKtree_init_Nil)
next
  case (Cons r els)
  then show ?thesis using built [of r els] BKtree_init_tree_of [of r els d] by blast
qed

subsection \<open>The generator\<close>

lemma gen_res_step:
  assumes "gen_next self g = gen_next self g1" "g_item g1 = g_item g"
    "g_threshold g1 = g_threshold g" "gen_res self g1 out"
  shows "gen_res self g out"
  using assms unfolding gen_res_def by simp

lemma work_pos: "3 \<le> work t"
  by (cases t) simp

lemma gen_next_ok:
  assumes "gen_of self g as"
  shows "gen_res self g (gen_out self g as)"
  using assms
proof (induction "sum_list (map fwork as)" arbitrary: as g rule: less_induct)
  case less
  let ?d = "distance self"
  let ?q = "g_item g"
  let ?th = "g_threshold g"
  let ?m = "map_of (nodes self)"
  show ?case
  proof (cases as)
    case Nil
    then have fr: "frames g = []" using less.prems by (simp add: gen_of_def)
    have run: "gen_next self g = Some (Inr (None, g, self))"
      by (subst gen_next.simps) (simp add: fr)
    have "gen_of self g []" using fr by (simp add: gen_of_def)
    moreover have "gen_out self g [] = []" by (simp add: gen_out_def)
    ultimately show ?thesis
      using run Nil unfolding gen_res_def by (auto simp: gen_out_def)
  next
    case (Cons f rest)
    let ?fs = "map (conc ?d ?q) rest"
    have fr: "frames g = conc ?d ?q f # ?fs"
      using less.prems Cons by (simp add: gen_of_def)
    have ok: "frame_ok ?m f" "\<forall>f'\<in>set rest. frame_ok ?m f'"
      using less.prems Cons by (simp_all add: gen_of_def)
    have IH: "\<And>as1 g1. sum_list (map fwork as1) < sum_list (map fwork as) \<Longrightarrow>
                gen_of self g1 as1 \<Longrightarrow> gen_res self g1 (gen_out self g1 as1)"
      using less.hyps by blast
    show ?thesis
    proof (cases f)
      case (AStart t)
      obtain l r cs where t: "t = Node l r cs" by (cases t) auto
      let ?g1 = "g\<lparr>frames := AtYield r (?d r ?q) # ?fs\<rparr>"
      let ?as1 = "AYield t # rest"
      have g1: "gen_of self ?g1 ?as1"
        using ok AStart t by (simp add: gen_of_def)
      show ?thesis
      proof (cases "?d r ?q \<le> ?th")
        case True
        have run: "gen_next self g = Some (Inr (Some r, ?g1, self))"
          using True fr AStart t by (subst gen_next.simps) simp
        have "gen_out self g as = r # gen_out self ?g1 ?as1"
          using True Cons AStart t by (simp add: gen_out_def)
        then show ?thesis
          using run g1 unfolding gen_res_def by auto
      next
        case False
        have run: "gen_next self g = gen_next self ?g1"
          using False fr AStart t by (subst gen_next.simps) simp
        have out: "gen_out self g as = gen_out self ?g1 ?as1"
          using False Cons AStart t by (simp add: gen_out_def)
        have "sum_list (map fwork ?as1) < sum_list (map fwork as)"
          using Cons AStart work_pos [of t] by simp
        then have "gen_res self ?g1 (gen_out self ?g1 ?as1)"
          using IH g1 by blast
        then show ?thesis
          unfolding out by (rule gen_res_step [OF run, rotated 2]) simp_all
      qed
    next
      case (AYield t)
      obtain l r cs where t: "t = Node l r cs" by (cases t) auto
      let ?g1 = "g\<lparr>frames := Loop (?d r ?q) (map arc_of cs) # ?fs\<rparr>"
      let ?as1 = "ALoop (?d r ?q) cs # rest"
      have mr: "?m r = Some (map arc_of cs)" using ok(1) AYield t by simp
      have g1: "gen_of self ?g1 ?as1"
        using ok AYield t by (simp add: gen_of_def)
      have run: "gen_next self g = gen_next self ?g1"
        using fr AYield t mr by (subst gen_next.simps) simp
      have out: "gen_out self g as = gen_out self ?g1 ?as1"
        using Cons AYield t by (simp add: gen_out_def)
      have "sum_list (map fwork ?as1) < sum_list (map fwork as)"
        using Cons AYield t by simp
      then have "gen_res self ?g1 (gen_out self ?g1 ?as1)"
        using IH g1 by blast
      then show ?thesis
        unfolding out by (rule gen_res_step [OF run, rotated 2]) simp_all
    next
      case (ALoop dist cs)
      show ?thesis
      proof (cases cs)
        case Nil
        let ?g1 = "g\<lparr>frames := ?fs\<rparr>"
        have g1: "gen_of self ?g1 rest"
          using ok by (simp add: gen_of_def)
        have run: "gen_next self g = gen_next self ?g1"
          using fr ALoop Nil by (subst gen_next.simps) simp
        have out: "gen_out self g as = gen_out self ?g1 rest"
          using Cons ALoop Nil by (simp add: gen_out_def)
        have "sum_list (map fwork rest) < sum_list (map fwork as)"
          using Cons ALoop Nil by simp
        then have "gen_res self ?g1 (gen_out self ?g1 rest)"
          using IH g1 by blast
        then show ?thesis
          unfolding out by (rule gen_res_step [OF run, rotated 2]) simp_all
      next
        case (Cons c cs')
        note cs = Cons
        show ?thesis
        proof (cases "dist - ?th \<le> lab c \<and> lab c \<le> dist + ?th")
          case True
          let ?g1 = "g\<lparr>frames := Start (val c) # Loop dist (map arc_of cs') # ?fs\<rparr>"
          let ?as1 = "AStart c # ALoop dist cs' # rest"
          have g1: "gen_of self ?g1 ?as1"
            using ok ALoop cs by (simp add: gen_of_def)
          have run: "gen_next self g = gen_next self ?g1"
            using fr ALoop cs True by (subst gen_next.simps) (simp add: arc_of_def)
          have out: "gen_out self g as = gen_out self ?g1 ?as1"
            using \<open>as = f # rest\<close> ALoop cs True by (simp add: gen_out_def)
          have "sum_list (map fwork ?as1) < sum_list (map fwork as)"
            using \<open>as = f # rest\<close> ALoop cs by simp
          then have "gen_res self ?g1 (gen_out self ?g1 ?as1)"
            using IH g1 by blast
          then show ?thesis
            unfolding out by (rule gen_res_step [OF run, rotated 2]) simp_all
        next
          case False
          let ?g1 = "g\<lparr>frames := Loop dist (map arc_of cs') # ?fs\<rparr>"
          let ?as1 = "ALoop dist cs' # rest"
          have g1: "gen_of self ?g1 ?as1"
            using ok ALoop cs by (simp add: gen_of_def)
          have run: "gen_next self g = gen_next self ?g1"
            using fr ALoop cs False by (subst gen_next.simps) (auto simp: arc_of_def)
          have out: "gen_out self g as = gen_out self ?g1 ?as1"
            using \<open>as = f # rest\<close> ALoop cs False by (auto simp: gen_out_def)
          have "sum_list (map fwork ?as1) < sum_list (map fwork as)"
            using \<open>as = f # rest\<close> ALoop cs by simp
          then have "gen_res self ?g1 (gen_out self ?g1 ?as1)"
            using IH g1 by blast
          then show ?thesis
            unfolding out by (rule gen_res_step [OF run, rotated 2]) simp_all
        qed
      qed
    qed
  qed
qed

lemma drain_ok:
  assumes "gen_of self g as"
  shows "drain self g acc = Some (Inr (acc @ gen_out self g as, self))"
  using assms
proof (induction "length (gen_out self g as)" arbitrary: g as acc rule: less_induct)
  case less
  obtain v g' as' where r: "gen_next self g = Some (Inr (v, g', self))" "gen_of self g' as'"
    "case gen_out self g as of [] \<Rightarrow> v = None \<and> gen_out self g' as' = []
       | y # ys \<Rightarrow> v = Some y \<and> gen_out self g' as' = ys"
    using gen_next_ok [OF less.prems] unfolding gen_res_def by blast
  show ?case
  proof (cases "gen_out self g as")
    case Nil
    then have "v = None" using r(3) by simp
    then show ?thesis using r(1) Nil by (subst drain.simps) simp
  next
    case (Cons y ys)
    then have v: "v = Some y" "gen_out self g' as' = ys" using r(3) by simp_all
    have "length (gen_out self g' as') < length (gen_out self g as)"
      using v(2) Cons by simp
    then have "drain self g' (acc @ [y]) = Some (Inr ((acc @ [y]) @ gen_out self g' as', self))"
      using less.hyps r(2) by blast
    then show ?thesis using r(1) v Cons by (subst drain.simps) simp
  qed
qed

lemma pull_ok:
  assumes "gen_of self g as"
  shows "\<exists>g'. pull n self g = Some (Inr (take n (gen_out self g as), g', self))"
  using assms
proof (induction n arbitrary: g as)
  case 0
  then show ?case by simp
next
  case (Suc n)
  obtain v g' as' where r: "gen_next self g = Some (Inr (v, g', self))" "gen_of self g' as'"
    "case gen_out self g as of [] \<Rightarrow> v = None \<and> gen_out self g' as' = []
       | y # ys \<Rightarrow> v = Some y \<and> gen_out self g' as' = ys"
    using gen_next_ok [OF Suc.prems] unfolding gen_res_def by blast
  show ?case
  proof (cases "gen_out self g as")
    case Nil
    then have "v = None" using r(3) by simp
    then show ?thesis using r(1) Nil by simp
  next
    case (Cons y ys)
    then have v: "v = Some y" "gen_out self g' as' = ys" using r(3) by simp_all
    obtain g'' where "pull n self g' = Some (Inr (take n (gen_out self g' as'), g'', self))"
      using Suc.IH [OF r(2)] by blast
    then show ?thesis using r(1) v Cons by simp
  qed
qed

lemma xfind_tree_of:
  assumes "tree_of self t"
  shows "xfind self q th = (Some (xfinder self (root self) q th), self)"
    "gen_of self (xfinder self (root self) q th) [AStart t]"
    "gen_out self (xfinder self (root self) q th) [AStart t] = afind (distance self) q th t"
proof -
  show "xfind self q th = (Some (xfinder self (root self) q th), self)"
    using tree_of_nonempty [OF assms] by (simp add: xfind_def)
  have "repr (map_of (nodes self)) t" "val t = root self"
    using assms by (simp_all add: tree_of_def)
  then show "gen_of self (xfinder self (root self) q th) [AStart t]"
    by (simp add: gen_of_def xfinder_def)
  show "gen_out self (xfinder self (root self) q th) [AStart t] = afind (distance self) q th t"
    by (simp add: gen_out_def xfinder_def)
qed

lemma drain_xfind_tree_of:
  assumes "tree_of self t"
  shows "drain_xfind self q th = Some (Inr (afind (distance self) q th t, self))"
  using xfind_tree_of [OF assms, of q th]
    drain_ok [of self "xfinder self (root self) q th" "[AStart t]" "[]"]
  by (simp add: drain_xfind_def)

lemma xfind_refines_find:
  assumes "tree_of self t"
  shows "drain_xfind self q th = find_bk self q th"
  using drain_xfind_tree_of [OF assms] find_bk_tree_of [OF assms] by simp

section \<open>The claims\<close>

subsection \<open>Facts shared by the claims and their examples\<close>

lemma metric_edit_distance: "metric edit_distance"
  unfolding metric_def
  using edit_distance_zero edit_distance_refl edit_distance_sym edit_distance_triangle
  by metis

lemma edit_distance_pos: "x \<noteq> y \<Longrightarrow> 0 < edit_distance x y"
  using edit_distance_zero [of x y] edit_distance_nonneg [of x y] by force

lemma BKtree_init_built:
  assumes "xs \<noteq> []"
  obtains T t where "BKtree_init xs d = Some (Inr T)" "distance T = d" "tree_of T t"
  using assms by (cases xs d rule: BKtree_init_cases) auto

text \<open>
  On a tree built from a stream that is not empty, draining \<^verbatim>\<open>xfind\<close> gives the list
  \<^verbatim>\<open>find\<close> returns, items and order.
\<close>

lemma xfind_drain_eq_find:
  assumes "xs \<noteq> []"
  shows "\<exists>T ys. BKtree_init xs d = Some (Inr T) \<and> find_bk T x t = Some (Inr (ys, T)) \<and>
           drain_xfind T x t = Some (Inr (ys, T))"
proof -
  obtain T tr where T: "BKtree_init xs d = Some (Inr T)" "tree_of T tr"
    using BKtree_init_built [OF assms] by blast
  show ?thesis
    using T(1) find_bk_tree_of [OF T(2)] drain_xfind_tree_of [OF T(2)] by simp
qed

subsection \<open>C1\<close>

text \<open>
  C1. For every finite stream of items (in any order) and a distance function that meets
  the metric contract, \<^verbatim>\<open>find(x, t)\<close> on the tree built from the stream returns, for every
  query item \<open>x\<close> and threshold \<open>t\<close>, exactly the items \<open>y\<close> of the stream with
  \<open>d(x, y) \<le> t\<close>. Construction and query both return normally, and the query leaves the
  tree as it was.
\<close>

theorem find_complete:
  assumes "metric d"
  shows "\<exists>T ys. BKtree_init xs d = Some (Inr T) \<and> find_bk T x t = Some (Inr (ys, T)) \<and>
           set ys = {y \<in> set xs. d x y \<le> t}"
proof (cases xs)
  case Nil
  then show ?thesis by (simp add: BKtree_init_Nil find_bk_def)
next
  case (Cons r els)
  let ?t = "abuild d els (Node 0 r [])"
  obtain T where T: "BKtree_init (r # els) d = Some (Inr T)" "distance T = d" "tree_of T ?t"
    using BKtree_init_tree_of [of r els d] by blast
  have sym: "\<And>x y. d x y = d y x" and tri: "\<And>x y z. d x z \<le> d x y + d y z"
    using assms unfolding metric_def by auto
  have "bk_inv d ?t" by (rule bk_inv_abuild) simp
  then have "set (afind d x t ?t) = {y \<in> iset ?t. d x y \<le> t}"
    by (rule afind_correct [OF sym tri])
  moreover have "iset ?t = iset (Node 0 r []) \<union> set els"
    by (rule iset_abuild_pos) (rule metric_pos [OF assms])
  moreover have "iset (Node 0 r []) \<union> set els = set xs"
    using Cons by simp
  ultimately have res: "set (afind d x t ?t) = {y \<in> set xs. d x y \<le> t}"
    by (simp only:)
  have "find_bk T x t = Some (Inr (afind d x t ?t, T))"
    using find_bk_tree_of [OF T(3)] T(2) by simp
  then show ?thesis using T(1) Cons res by blast
qed

theorem find_complete_witness:
  "metric edit_distance \<and>
   (\<exists>T ys. BKtree_init [''abyss'', ''cubic'', ''cuba'', ''cube''] edit_distance = Some (Inr T) \<and>
      find_bk T ''cuba'' 1 = Some (Inr (ys, T)) \<and> set ys = {''cuba'', ''cube''})"
proof -
  define a b c e :: string where "a = ''abyss''" and "b = ''cubic''" and "c = ''cuba''"
    and "e = ''cube''"
  have v: "\<not> edit_distance c a \<le> 1" "\<not> edit_distance c b \<le> 1"
    "edit_distance c c \<le> 1" "edit_distance c e \<le> 1"
    unfolding a_def b_def c_def e_def by (simp_all add: edit_distance_lev)
  have "{y \<in> set [a, b, c, e]. edit_distance c y \<le> 1} = {c, e}"
    using v by auto
  then have "\<exists>T ys. BKtree_init [a, b, c, e] edit_distance = Some (Inr T) \<and>
      find_bk T c 1 = Some (Inr (ys, T)) \<and> set ys = {c, e}"
    using find_complete [OF metric_edit_distance, of "[a, b, c, e]" c 1] by (simp only:)
  then show ?thesis
    using metric_edit_distance unfolding a_def b_def c_def e_def by (rule conjI [rotated])
qed

subsection \<open>C2\<close>

text \<open>
  C2. For all finite sequences \<open>a\<close> and \<open>b\<close>, \<^verbatim>\<open>edit_distance(a, b)\<close> is the minimum number of
  single-element insertions, deletions and substitutions that transform \<open>a\<close> into \<open>b\<close>:
  it is not negative, that many operations do transform \<open>a\<close> into \<open>b\<close>, and no
  sequence of operations from \<open>a\<close> to \<open>b\<close> is shorter. In particular an empty sequence
  is at the length of the other one, and equal sequences are at 0.
\<close>

theorem edit_distance_minimal:
  "0 \<le> edit_distance a b \<and>
   (edit_step ^^ nat (edit_distance a b)) a b \<and>
   (\<forall>n. (edit_step ^^ n) a b \<longrightarrow> edit_distance a b \<le> int n) \<and>
   edit_distance [] b = int (length b) \<and>
   edit_distance a [] = int (length a) \<and>
   edit_distance a a = 0"
  using edit_distance_nonneg [of a b] edit_distance_path [of a b] edit_distance_least [of _ a b]
    edit_distance_Nil1 [of b] edit_distance_Nil2 [of a] edit_distance_refl [of a]
  by blast

theorem edit_distance_minimal_witness:
  "(edit_step ^^ 2) ''cuba'' ''cubic'' \<and> edit_distance ''cuba'' ''cubic'' \<le> 2"
proof -
  define a b :: string where "a = ''cuba''" and "b = ''cubic''"
  have v: "edit_distance a b = 2"
    unfolding a_def b_def by (simp add: edit_distance_lev)
  note m = edit_distance_minimal [of a b]
  have p: "(edit_step ^^ nat (edit_distance a b)) a b"
    using m by (elim conjE)
  then have p2: "(edit_step ^^ 2) a b" unfolding v by simp
  have "\<forall>n. (edit_step ^^ n) a b \<longrightarrow> edit_distance a b \<le> int n"
    using m by (elim conjE)
  then have "edit_distance a b \<le> int 2" using p2 by blast
  then have "(edit_step ^^ 2) a b \<and> edit_distance a b \<le> 2" using p2 by simp
  then show ?thesis unfolding a_def b_def .
qed

subsection \<open>C3\<close>

text \<open>
  C3. For all sequences \<open>a\<close>, \<open>b\<close>, \<open>c\<close>: \<^verbatim>\<open>edit_distance\<close> is symmetric, is 0 from a
  sequence to itself, meets the triangle inequality, and is 0 exactly between equal
  sequences.
\<close>

theorem edit_distance_is_metric:
  "edit_distance a b = edit_distance b a \<and>
   edit_distance a a = 0 \<and>
   edit_distance a c \<le> edit_distance a b + edit_distance b c \<and>
   (edit_distance a b = 0) = (a = b)"
  using edit_distance_sym [of a b] edit_distance_refl edit_distance_triangle [of a c b]
    edit_distance_zero [of a b]
  by metis

subsection \<open>C4\<close>

text \<open>
  C4. Draining \<^verbatim>\<open>xfind\<close> is claimed to give the items of \<^verbatim>\<open>find\<close> in the same order for
  every tree, the empty one included. On the tree of the empty stream \<^verbatim>\<open>find\<close> returns
  the empty list, while \<^verbatim>\<open>xfind\<close> returns Python's \<^verbatim>\<open>None\<close> and draining it raises
  \<^verbatim>\<open>TypeError\<close>. (Lemma \<open>xfind_drain_eq_find\<close> is the claim on every other built tree.)
\<close>

theorem xfind_differs_on_empty_tree:
  "find_bk \<lparr>distance = d, nodes = [], root = []\<rparr> x t =
     Some (Inr ([], \<lparr>distance = d, nodes = [], root = []\<rparr>)) \<and>
   drain_xfind \<lparr>distance = d, nodes = [], root = []\<rparr> x t = Some (Inl TypeError)"
  by (simp add: find_bk_def drain_xfind_def xfind_def)

subsection \<open>C5\<close>

text \<open>
  C5. A query with a negative threshold is claimed to fail with an invalid-argument
  condition. The source checks no argument: on the tree of the one item \<^verbatim>\<open>"cuba"\<close>,
  \<^verbatim>\<open>find("cuba", -1)\<close> returns the empty list.
\<close>

theorem negative_threshold_returns:
  "BKtree_init [''cuba''] edit_distance =
     Some (Inr \<lparr>distance = edit_distance, nodes = [(''cuba'', [])], root = ''cuba''\<rparr>) \<and>
   find_bk \<lparr>distance = edit_distance, nodes = [(''cuba'', [])], root = ''cuba''\<rparr> ''cuba'' (- 1) =
     Some (Inr ([], \<lparr>distance = edit_distance, nodes = [(''cuba'', [])], root = ''cuba''\<rparr>))"
proof -
  have "finder \<lparr>distance = edit_distance, nodes = [(''cuba'', [])], root = ''cuba''\<rparr>
          ''cuba'' ''cuba'' (- 1) [] =
        Some (Inr ([], \<lparr>distance = edit_distance, nodes = [(''cuba'', [])], root = ''cuba''\<rparr>))"
    by (subst finder.simps) (simp add: edit_distance_refl)
  then show ?thesis by (simp add: BKtree_init_def find_bk_def)
qed

text \<open>
  C5 as the source has it: on every tree built with a distance function that returns no
  negative value, \<^verbatim>\<open>find\<close> with a negative threshold returns the empty list and raises
  nothing; when the stream was not empty, draining \<^verbatim>\<open>xfind\<close> yields no item either.
\<close>

theorem negative_threshold_empty_result:
  assumes "t < 0" "\<forall>x y. 0 \<le> d x y"
  shows "\<exists>T. BKtree_init xs d = Some (Inr T) \<and> find_bk T x t = Some (Inr ([], T)) \<and>
           (xs \<noteq> [] \<longrightarrow> drain_xfind T x t = Some (Inr ([], T)))"
proof (cases xs d rule: BKtree_init_cases)
  case empty
  then show ?thesis by (simp add: find_bk_def)
next
  case (built r els T)
  let ?t = "abuild d els (Node 0 r [])"
  have "afind d x t ?t = []" using assms by (intro afind_negative) auto
  then show ?thesis
    using find_bk_tree_of [OF built(5)] drain_xfind_tree_of [OF built(5)] built(2,3) by simp
qed

theorem negative_threshold_empty_result_witness:
  "(- 1 :: int) < 0 \<and>
   (\<exists>T. BKtree_init [''cuba'', ''cube''] edit_distance = Some (Inr T) \<and>
      find_bk T ''cuba'' (- 1) = Some (Inr ([], T)) \<and>
      drain_xfind T ''cuba'' (- 1) = Some (Inr ([], T)))"
proof -
  define ws :: "string list" where "ws = [''cuba'', ''cube'']"
  define q :: string where "q = ''cuba''"
  have neg: "(- 1 :: int) < 0" by simp
  have nn: "\<forall>x y :: string. 0 \<le> edit_distance x y" by (simp add: edit_distance_nonneg)
  have ne: "ws \<noteq> []" by (simp add: ws_def)
  obtain T where T: "BKtree_init ws edit_distance = Some (Inr T)"
    "find_bk T q (- 1) = Some (Inr ([], T))"
    "ws \<noteq> [] \<longrightarrow> drain_xfind T q (- 1) = Some (Inr ([], T))"
    using negative_threshold_empty_result [OF neg nn, of ws q]
    by (elim exE conjE) (rule that, assumption+)
  have "drain_xfind T q (- 1) = Some (Inr ([], T))" using T(3) ne by (rule mp)
  then have "(- 1 :: int) < 0 \<and>
   (\<exists>T. BKtree_init ws edit_distance = Some (Inr T) \<and>
      find_bk T q (- 1) = Some (Inr ([], T)) \<and>
      drain_xfind T q (- 1) = Some (Inr ([], T)))"
    using neg T(1,2) by blast
  then show ?thesis unfolding ws_def q_def .
qed

subsection \<open>C6\<close>

text \<open>
  C6. Every query on the tree of an empty stream is claimed to return an empty result and
  never an error. Construction gives the empty tree and \<^verbatim>\<open>find\<close> returns the empty list
  on it, but \<^verbatim>\<open>xfind\<close> returns Python's \<^verbatim>\<open>None\<close> there, not an empty sequence.
\<close>

theorem xfind_on_empty_tree:
  "BKtree_init [] d = Some (Inr \<lparr>distance = d, nodes = [], root = []\<rparr>) \<and>
   xfind \<lparr>distance = d, nodes = [], root = []\<rparr> x t =
     (None, \<lparr>distance = d, nodes = [], root = []\<rparr>)"
  by (simp add: BKtree_init_def xfind_def)

subsection \<open>C7\<close>

text \<open>
  C7. After construction from any stream: no node has two arcs with the same label; the
  keys of the node dictionary are pairwise different items of the stream, and they are all
  the items of the stream when the distance between different items is positive; and an
  item that is already a key is discarded, so that the tree built from the stream followed
  by that item and any further items is the tree built without it.
\<close>

theorem construction_invariants:
  "\<exists>T. BKtree_init xs d = Some (Inr T) \<and>
       (\<forall>(k, arcs)\<in>set (nodes T). distinct (map snd arcs)) \<and>
       distinct (map fst (nodes T)) \<and>
       fst ` set (nodes T) \<subseteq> set xs \<and>
       ((\<forall>x y. x \<noteq> y \<longrightarrow> 0 < d x y) \<longrightarrow> fst ` set (nodes T) = set xs) \<and>
       (\<forall>x zs. x \<in> fst ` set (nodes T) \<longrightarrow>
          BKtree_init (xs @ x # zs) d = BKtree_init (xs @ zs) d)"
proof (cases xs d rule: BKtree_init_cases)
  case empty
  then show ?thesis by simp
next
  case (built r els T)
  let ?t = "abuild d els (Node 0 r [])"
  have keys: "fst ` set (nodes T) = iset ?t" "distinct (map fst (nodes T))"
    using built(5) by (simp_all add: tree_of_def)
  have 1: "\<forall>(k, arcs)\<in>set (nodes T). distinct (map snd arcs)"
    using tree_of_arcs [OF built(5)] by fastforce
  have "iset ?t \<subseteq> iset (Node 0 r []) \<union> set els" by (rule iset_abuild_upper)
  then have 2: "fst ` set (nodes T) \<subseteq> set xs" using keys(1) built(1) by auto
  have 3: "(\<forall>x y. x \<noteq> y \<longrightarrow> 0 < d x y) \<longrightarrow> fst ` set (nodes T) = set xs"
  proof
    assume "\<forall>x y. x \<noteq> y \<longrightarrow> 0 < d x y"
    then have "iset ?t = iset (Node 0 r []) \<union> set els"
      by (intro iset_abuild_pos) blast
    then show "fst ` set (nodes T) = set xs" using keys(1) built(1) by simp
  qed
  have 4: "\<forall>x zs. x \<in> fst ` set (nodes T) \<longrightarrow>
          BKtree_init (xs @ x # zs) d = BKtree_init (xs @ zs) d"
    using BKtree_init_discard [OF built(2)] by blast
  show ?thesis using built(2) 1 keys(2) 2 3 4 by blast
qed

theorem construction_invariants_witness:
  "\<exists>T. BKtree_init [''cuba'', ''cube'', ''cuba''] edit_distance = Some (Inr T) \<and>
       distinct (map fst (nodes T)) \<and>
       fst ` set (nodes T) = {''cuba'', ''cube''} \<and>
       BKtree_init ([''cuba'', ''cube'', ''cuba''] @ ''cube'' # [''cubic'']) edit_distance =
         BKtree_init ([''cuba'', ''cube'', ''cuba''] @ [''cubic'']) edit_distance"
proof -
  define c e b :: string where "c = ''cuba''" and "e = ''cube''" and "b = ''cubic''"
  define ws where "ws = [c, e, c]"
  have pos: "\<forall>x y :: string. x \<noteq> y \<longrightarrow> 0 < edit_distance x y"
    using edit_distance_pos by blast
  obtain T where T: "BKtree_init ws edit_distance = Some (Inr T)"
    "\<forall>(k, arcs)\<in>set (nodes T). distinct (map snd arcs)"
    "distinct (map fst (nodes T))"
    "fst ` set (nodes T) \<subseteq> set ws"
    "(\<forall>x y :: string. x \<noteq> y \<longrightarrow> 0 < edit_distance x y) \<longrightarrow> fst ` set (nodes T) = set ws"
    "\<forall>x zs. x \<in> fst ` set (nodes T) \<longrightarrow>
       BKtree_init (ws @ x # zs) edit_distance = BKtree_init (ws @ zs) edit_distance"
    using construction_invariants [of ws edit_distance]
    by (elim exE conjE) (rule that, assumption+)
  have keys: "fst ` set (nodes T) = set ws" using T(5) pos by (rule mp)
  have sw: "set ws = {c, e}" by (auto simp: ws_def)
  have "e \<in> fst ` set (nodes T)" unfolding keys sw by simp
  then have "BKtree_init (ws @ e # [b]) edit_distance = BKtree_init (ws @ [b]) edit_distance"
    using T(6) by blast
  then have "BKtree_init ws edit_distance = Some (Inr T) \<and>
       distinct (map fst (nodes T)) \<and>
       fst ` set (nodes T) = {c, e} \<and>
       BKtree_init (ws @ e # [b]) edit_distance = BKtree_init (ws @ [b]) edit_distance"
    using T(1,3) keys sw by simp
  then have "\<exists>T. BKtree_init ws edit_distance = Some (Inr T) \<and>
       distinct (map fst (nodes T)) \<and>
       fst ` set (nodes T) = {c, e} \<and>
       BKtree_init (ws @ e # [b]) edit_distance = BKtree_init (ws @ [b]) edit_distance"
    by (rule exI)
  then show ?thesis unfolding ws_def c_def e_def b_def .
qed

subsection \<open>C8\<close>

text \<open>
  C8. For every built tree, query item \<open>x\<close> and thresholds \<open>t1 \<le> t2\<close>, every item that
  \<^verbatim>\<open>find(x, t1)\<close> returns is returned by \<^verbatim>\<open>find(x, t2)\<close>. No property of the distance
  function is needed.
\<close>

theorem find_monotone:
  assumes "t1 \<le> t2"
  shows "\<exists>T ys1 ys2. BKtree_init xs d = Some (Inr T) \<and>
           find_bk T x t1 = Some (Inr (ys1, T)) \<and> find_bk T x t2 = Some (Inr (ys2, T)) \<and>
           set ys1 \<subseteq> set ys2"
proof (cases xs d rule: BKtree_init_cases)
  case empty
  then show ?thesis by (simp add: find_bk_def)
next
  case (built r els T)
  let ?t = "abuild d els (Node 0 r [])"
  have "find_bk T x t1 = Some (Inr (afind d x t1 ?t, T))"
    "find_bk T x t2 = Some (Inr (afind d x t2 ?t, T))"
    using find_bk_tree_of [OF built(5)] built(3) by simp_all
  moreover have "set (afind d x t1 ?t) \<subseteq> set (afind d x t2 ?t)"
    using assms by (rule afind_mono)
  ultimately show ?thesis using built(2) by blast
qed

theorem find_monotone_witness:
  "(1 :: int) \<le> 2 \<and>
   (\<exists>T ys1 ys2. BKtree_init [''abyss'', ''cubic'', ''cuba'', ''cube''] edit_distance = Some (Inr T) \<and>
      find_bk T ''cuba'' 1 = Some (Inr (ys1, T)) \<and> find_bk T ''cuba'' 2 = Some (Inr (ys2, T)) \<and>
      set ys1 \<subseteq> set ys2)"
proof -
  define ws :: "string list" where "ws = [''abyss'', ''cubic'', ''cuba'', ''cube'']"
  define q :: string where "q = ''cuba''"
  have le: "(1 :: int) \<le> 2" by simp
  have "(1 :: int) \<le> 2 \<and>
   (\<exists>T ys1 ys2. BKtree_init ws edit_distance = Some (Inr T) \<and>
      find_bk T q 1 = Some (Inr (ys1, T)) \<and> find_bk T q 2 = Some (Inr (ys2, T)) \<and>
      set ys1 \<subseteq> set ys2)"
    using le find_monotone [OF le, of ws edit_distance q] by (rule conjI)
  then show ?thesis unfolding ws_def q_def .
qed

subsection \<open>C9\<close>

text \<open>
  C9. On every built tree, \<^verbatim>\<open>find\<close> returns with the tree as it was; \<^verbatim>\<open>xfind\<close> returns with
  the tree as it was, and returns a generator exactly when the stream was not empty; and
  asking that generator for any number \<open>n\<close> of items, or draining it, returns with the tree
  as it was. Nodes and arcs are created by construction only.
\<close>

theorem queries_leave_tree_unchanged:
  "\<exists>T. BKtree_init xs d = Some (Inr T) \<and>
       (\<exists>ys. find_bk T x t = Some (Inr (ys, T))) \<and>
       snd (xfind T x t) = T \<and>
       (fst (xfind T x t) = None) = (xs = []) \<and>
       (\<forall>g. fst (xfind T x t) = Some g \<longrightarrow>
          (\<exists>vs g'. pull n T g = Some (Inr (vs, g', T))) \<and>
          (\<exists>ys. drain T g [] = Some (Inr (ys, T))))"
proof (cases xs d rule: BKtree_init_cases)
  case empty
  then show ?thesis by (simp add: find_bk_def xfind_def)
next
  case (built r els T)
  let ?t = "abuild d els (Node 0 r [])"
  let ?g = "xfinder T (root T) x t"
  note xf = xfind_tree_of [OF built(5), of x t]
  have 1: "\<exists>ys. find_bk T x t = Some (Inr (ys, T))"
    using find_bk_tree_of [OF built(5)] by simp
  have 2: "\<exists>vs g'. pull n T ?g = Some (Inr (vs, g', T))"
    using pull_ok [OF xf(2), of n] by blast
  have 3: "\<exists>ys. drain T ?g [] = Some (Inr (ys, T))"
    using drain_ok [OF xf(2), of "[]"] by simp
  show ?thesis
    using built(1,2) 1 2 3 xf(1) by auto
qed

theorem queries_leave_tree_unchanged_witness:
  "\<exists>T g. BKtree_init [''cuba'', ''cube''] edit_distance = Some (Inr T) \<and>
       fst (xfind T ''cuba'' 1) = Some g \<and>
       (\<exists>vs g'. pull 1 T g = Some (Inr (vs, g', T))) \<and>
       (\<exists>ys. drain T g [] = Some (Inr (ys, T)))"
proof -
  define ws :: "string list" where "ws = [''cuba'', ''cube'']"
  define q :: string where "q = ''cuba''"
  obtain T where T: "BKtree_init ws edit_distance = Some (Inr T)"
    "(fst (xfind T q 1) = None) = (ws = [])"
    "\<forall>g. fst (xfind T q 1) = Some g \<longrightarrow>
          (\<exists>vs g'. pull 1 T g = Some (Inr (vs, g', T))) \<and>
          (\<exists>ys. drain T g [] = Some (Inr (ys, T)))"
    using queries_leave_tree_unchanged [of ws edit_distance q 1 1]
    by (elim exE conjE) (rule that, assumption+)
  have "ws \<noteq> []" by (simp add: ws_def)
  then have "fst (xfind T q 1) \<noteq> None" using T(2) by simp
  then obtain g where g: "fst (xfind T q 1) = Some g" by blast
  have "BKtree_init ws edit_distance = Some (Inr T) \<and>
       fst (xfind T q 1) = Some g \<and>
       (\<exists>vs g'. pull 1 T g = Some (Inr (vs, g', T))) \<and>
       (\<exists>ys. drain T g [] = Some (Inr (ys, T)))"
    using T(1,3) g by blast
  then have "\<exists>T g. BKtree_init ws edit_distance = Some (Inr T) \<and>
       fst (xfind T q 1) = Some g \<and>
       (\<exists>vs g'. pull 1 T g = Some (Inr (vs, g', T))) \<and>
       (\<exists>ys. drain T g [] = Some (Inr (ys, T)))"
    by blast
  then show ?thesis unfolding ws_def q_def .
qed

subsection \<open>C10\<close>

text \<open>
  C10. After construction, with any distance function, every arc label stored in the tree
  is strictly positive.
\<close>

theorem arc_labels_positive:
  "\<exists>T. BKtree_init xs d = Some (Inr T) \<and>
       (\<forall>(k, arcs)\<in>set (nodes T). \<forall>(c, l)\<in>set arcs. 0 < l)"
proof (cases xs d rule: BKtree_init_cases)
  case empty
  then show ?thesis by simp
next
  case (built r els T)
  have "\<forall>(k, arcs)\<in>set (nodes T). \<forall>(c, l)\<in>set arcs. 0 < l"
    using tree_of_arcs [OF built(5)] by fastforce
  then show ?thesis using built(2) by blast
qed

lemma BKtree_init_example:
  "BKtree_init [''cuba'', ''cube''] edit_distance =
     Some (Inr \<lparr>distance = edit_distance,
                nodes = [(''cuba'', [(''cube'', 1)]), (''cube'', [])], root = ''cuba''\<rparr>)"
proof -
  have d: "edit_distance ''cuba'' ''cube'' = 1" by (simp add: edit_distance_lev)
  have "addLeaf \<lparr>distance = edit_distance, nodes = [(''cuba'', [])], root = ''cuba''\<rparr>
          ''cuba'' ''cube'' =
        Some (Inr \<lparr>distance = edit_distance,
                   nodes = [(''cuba'', [(''cube'', 1)]), (''cube'', [])], root = ''cuba''\<rparr>)"
    by (subst addLeaf.simps) (simp add: d)
  then show ?thesis by (simp add: BKtree_init_def)
qed

theorem arc_labels_positive_witness:
  "\<exists>T arcs. BKtree_init [''cuba'', ''cube''] edit_distance = Some (Inr T) \<and>
       (''cuba'', arcs) \<in> set (nodes T) \<and> (''cube'', 1) \<in> set arcs \<and> 0 < (1 :: int)"
proof -
  define c e :: string where "c = ''cuba''" and "e = ''cube''"
  define T0 where "T0 = \<lparr>distance = edit_distance, nodes = [(c, [(e, 1)]), (e, [])], root = c\<rparr>"
  have ex: "BKtree_init [c, e] edit_distance = Some (Inr T0)"
    unfolding T0_def c_def e_def by (rule BKtree_init_example)
  obtain T where T: "BKtree_init [c, e] edit_distance = Some (Inr T)"
    "\<forall>(k, arcs)\<in>set (nodes T). \<forall>(c, l)\<in>set arcs. 0 < l"
    using arc_labels_positive [of "[c, e]" edit_distance]
    by (elim exE conjE) (rule that, assumption+)
  have "T = T0" using T(1) ex by simp
  then have m: "(c, [(e, 1)]) \<in> set (nodes T)" by (simp add: T0_def)
  then have "\<forall>(c, l)\<in>set [(e, 1 :: int)]. 0 < l" using T(2) by blast
  then have "0 < (1 :: int)" by simp
  then have "BKtree_init [c, e] edit_distance = Some (Inr T) \<and>
       (c, [(e, 1)]) \<in> set (nodes T) \<and> (e, 1) \<in> set [(e, 1 :: int)] \<and> 0 < (1 :: int)"
    using T(1) m by simp
  then have "\<exists>T arcs. BKtree_init [c, e] edit_distance = Some (Inr T) \<and>
       (c, arcs) \<in> set (nodes T) \<and> (e, 1) \<in> set arcs \<and> 0 < (1 :: int)"
    by blast
  then show ?thesis unfolding c_def e_def .
qed

end
